theory Spec2Isabelle
  imports Complex_Main "HOL-Library.While_Combinator"
begin

section \<open>Process scheduler simulator: FCFS, SJF, Priority, Round Robin\<close>

text \<open>
  The repository holds each policy twice: once as a stand-alone module
  (\<^verbatim>\<open>fcfs_scheduling.py\<close>, \<^verbatim>\<open>sjf.py\<close>, \<^verbatim>\<open>priority_scheduling.py\<close>, \<^verbatim>\<open>rr.py\<close>) and once
  as a method of the GUI class in \<^verbatim>\<open>main.py\<close> (\<^verbatim>\<open>logic_fcfs\<close>, \<^verbatim>\<open>logic_sjf\<close>,
  \<^verbatim>\<open>logic_priority\<close>, \<^verbatim>\<open>logic_rr\<close>).  Python integers are modelled as \<open>int\<close>, Python
  floats (the averages and the utilisation) as exact \<open>real\<close> numbers.  A \<^verbatim>\<open>while\<close> loop
  is \<open>while_option\<close>: its value is \<open>None\<close> when the loop runs forever.
\<close>

type_synonym 'a segment = "'a \<times> int \<times> int"

definition duration :: "'a segment \<Rightarrow> int" where
  "duration g = (case g of (p, start, end) \<Rightarrow> end - start)"

subsection \<open>\<^verbatim>\<open>fcfs_scheduling.py\<close>\<close>

text \<open>
  A process is a dictionary with the keys \<^verbatim>\<open>'pid'\<close>, \<^verbatim>\<open>'arrival_time'\<close>, \<^verbatim>\<open>'burst_time'\<close>;
  the scheduler adds the four metric keys.  A key that may be absent is an \<open>option\<close>.
\<close>

record fcfs_process =
  pid :: string
  arrival_time :: int
  burst_time :: int
  start_time :: "int option"
  completion_time :: "int option"
  waiting_time :: "int option"
  turnaround_time :: "int option"

record fcfs_results =
  processes :: "fcfs_process list"
  gantt_chart :: "string segment list"
  avg_waiting_time :: real
  avg_turnaround_time :: real
  cpu_utilization :: real

text \<open>The body of the \<^verbatim>\<open>for\<close> loop (steps 4 to 8), for one process.\<close>

definition fcfs_body ::
  "int \<Rightarrow> fcfs_process \<Rightarrow> fcfs_process \<times> string segment \<times> int" where
  "fcfs_body current_time process =
     (let current_time1 =
            (if current_time < fcfs_process.arrival_time process
             then fcfs_process.arrival_time process else current_time);
          start = current_time1;
          completion = current_time1 + fcfs_process.burst_time process;
          waiting = start - fcfs_process.arrival_time process;
          turnaround = completion - fcfs_process.arrival_time process
      in (process\<lparr>fcfs_process.start_time := Some start,
                   fcfs_process.completion_time := Some completion,
                   fcfs_process.waiting_time := Some waiting,
                   fcfs_process.turnaround_time := Some turnaround\<rparr>,
          (fcfs_process.pid process, start, completion),
          completion))"

text \<open>The \<^verbatim>\<open>for\<close> loop over the sorted list: the updated processes, the Gantt chart
  and the final value of \<^verbatim>\<open>current_time\<close>.\<close>

fun fcfs_loop ::
  "int \<Rightarrow> fcfs_process list \<Rightarrow> fcfs_process list \<times> string segment list \<times> int" where
  "fcfs_loop current_time [] = ([], [], current_time)"
| "fcfs_loop current_time (process # rest) =
     (case fcfs_body current_time process of (process1, seg, current_time1) \<Rightarrow>
        (case fcfs_loop current_time1 rest of (ps, gantt, t) \<Rightarrow>
           (process1 # ps, seg # gantt, t)))"

text \<open>Python's \<^verbatim>\<open>sorted\<close> is stable, as \<open>sort_key\<close> is.  The metric keys are read back
  after the loop has set them on every process.\<close>

definition fcfs_scheduling :: "fcfs_process list \<Rightarrow> fcfs_results" where
  "fcfs_scheduling procs =
     (let sorted_processes0 = sort_key fcfs_process.arrival_time procs in
      case fcfs_loop 0 sorted_processes0 of (sorted_processes, gantt, current_time) \<Rightarrow>
        let total_waiting_time =
              sum_list (map (\<lambda>p. the (fcfs_process.waiting_time p)) sorted_processes);
            total_turnaround_time =
              sum_list (map (\<lambda>p. the (fcfs_process.turnaround_time p)) sorted_processes);
            num_processes = length sorted_processes;
            avg_waiting = (if num_processes > 0
                           then real_of_int total_waiting_time / real num_processes else 0);
            avg_turnaround = (if num_processes > 0
                           then real_of_int total_turnaround_time / real num_processes else 0);
            total_burst_time = sum_list (map fcfs_process.burst_time sorted_processes);
            total_time = (case sorted_processes of [] \<Rightarrow> 0
                          | p # _ \<Rightarrow> current_time - fcfs_process.arrival_time p);
            cpu = (if total_time > 0
                   then (real_of_int total_burst_time / real_of_int total_time) * 100 else 0)
        in \<lparr>processes = sorted_processes, gantt_chart = gantt,
            avg_waiting_time = avg_waiting, avg_turnaround_time = avg_turnaround,
            cpu_utilization = cpu\<rparr>)"

text \<open>A dictionary as the caller writes it, without the metric keys.\<close>

definition fcfs_input :: "string \<Rightarrow> int \<Rightarrow> int \<Rightarrow> fcfs_process" where
  "fcfs_input p a b =
     \<lparr>fcfs_process.pid = p, arrival_time = a, burst_time = b, start_time = None,
      completion_time = None, waiting_time = None, turnaround_time = None\<rparr>"

definition processes_example1 :: "fcfs_process list" where
  "processes_example1 =
     [fcfs_input ''P1'' 0 8, fcfs_input ''P2'' 1 4, fcfs_input ''P3'' 2 2]"

subsection \<open>Python built-ins used by the schedulers\<close>

text \<open>\<^verbatim>\<open>min(xs, key=f)\<close> scans from left to right and keeps the first element with the
  least key: a later element replaces the best so far only when its key is strictly
  smaller.  \<open>py_min_from key x xs\<close> is \<^verbatim>\<open>min\<close> on the non-empty list \<open>x # xs\<close>.\<close>

fun py_min_from :: "('a \<Rightarrow> int) \<Rightarrow> 'a \<Rightarrow> 'a list \<Rightarrow> 'a" where
  "py_min_from key best [] = best"
| "py_min_from key best (x # xs) =
     py_min_from key (if key x < key best then x else best) xs"

datatype error = IndexError | ValueError

subsection \<open>\<^verbatim>\<open>main.py\<close>: class \<^verbatim>\<open>Process\<close> and the four \<^verbatim>\<open>logic_*\<close> methods\<close>

record Process =
  pid :: string
  arrival_time :: int
  burst_time :: int
  priority :: int
  start_time :: int
  completion_time :: int
  waiting_time :: int
  turnaround_time :: int
  remaining_time :: int

text \<open>\<^verbatim>\<open>Process.__init__(pid, arrival, burst, priority)\<close>.\<close>

definition Process_init :: "string \<Rightarrow> int \<Rightarrow> int \<Rightarrow> int \<Rightarrow> Process" where
  "Process_init p arrival burst prio =
     \<lparr>Process.pid = p, arrival_time = arrival, burst_time = burst, priority = prio,
      start_time = 0, completion_time = 0, waiting_time = 0, turnaround_time = 0,
      remaining_time = burst\<rparr>"

text \<open>The four assignments every \<^verbatim>\<open>logic_*\<close> method of a non-preemptive policy makes
  when it runs process \<open>p\<close> at time \<open>t\<close>.\<close>

definition run_to_completion :: "int \<Rightarrow> Process \<Rightarrow> Process" where
  "run_to_completion t p =
     (let p1 = p\<lparr>Process.start_time := t,
                  Process.completion_time := t + Process.burst_time p\<rparr>;
          p2 = p1\<lparr>Process.turnaround_time :=
                     Process.completion_time p1 - Process.arrival_time p1\<rparr>
      in p2\<lparr>Process.waiting_time :=
                Process.turnaround_time p2 - Process.burst_time p2\<rparr>)"

fun logic_fcfs_loop :: "int \<Rightarrow> Process list \<Rightarrow> Process list" where
  "logic_fcfs_loop t [] = []"
| "logic_fcfs_loop t (p # ps) =
     (let t1 = (if t < Process.arrival_time p then Process.arrival_time p else t);
          p1 = run_to_completion t1 p
      in p1 # logic_fcfs_loop (Process.completion_time p1) ps)"

definition logic_fcfs :: "Process list \<Rightarrow> Process list" where
  "logic_fcfs procs = logic_fcfs_loop 0 (sort_key Process.arrival_time procs)"

text \<open>\<^verbatim>\<open>draw_gantt\<close> derives the chart of a non-preemptive run from the processes.\<close>

definition draw_data :: "Process list \<Rightarrow> string segment list" where
  "draw_data res =
     map (\<lambda>p. (Process.pid p, Process.start_time p, Process.completion_time p))
       (sort_key Process.start_time res)"

text \<open>\<^verbatim>\<open>logic_sjf\<close> and \<^verbatim>\<open>logic_priority\<close> are the same text but for the key of \<^verbatim>\<open>min\<close>
  (\<^verbatim>\<open>burst_time\<close>, \<^verbatim>\<open>priority\<close>), which is the parameter \<open>key\<close> here.  The list
  \<^verbatim>\<open>res\<close> holds references to the objects of \<^verbatim>\<open>procs\<close>: it is kept as their positions.\<close>

record np_state =
  np_procs :: "Process list"
  np_t :: int
  np_count :: nat
  np_res :: "nat list"
  np_comp :: "bool list"

definition np_avail :: "np_state \<Rightarrow> nat list" where
  "np_avail s =
     filter (\<lambda>i. Process.arrival_time (np_procs s ! i) \<le> np_t s \<and> \<not> np_comp s ! i)
       [0..<length (np_procs s)]"

definition np_body :: "(Process \<Rightarrow> int) \<Rightarrow> np_state \<Rightarrow> np_state" where
  "np_body key s =
     (case np_avail s of
        [] \<Rightarrow> s\<lparr>np_t := np_t s + 1\<rparr>
      | i # rest \<Rightarrow>
          let idx = py_min_from (\<lambda>i. key (np_procs s ! i)) i rest;
              p = run_to_completion (np_t s) (np_procs s ! idx)
          in s\<lparr>np_procs := (np_procs s)[idx := p],
               np_t := Process.completion_time p,
               np_comp := (np_comp s)[idx := True],
               np_count := np_count s + 1,
               np_res := np_res s @ [idx]\<rparr>)"

definition np_cond :: "np_state \<Rightarrow> bool" where
  "np_cond s = (np_count s < length (np_procs s))"

definition np_init :: "Process list \<Rightarrow> np_state" where
  "np_init procs =
     \<lparr>np_procs = procs, np_t = 0, np_count = 0, np_res = [],
      np_comp = replicate (length procs) False\<rparr>"

definition logic_np :: "(Process \<Rightarrow> int) \<Rightarrow> Process list \<Rightarrow> Process list option" where
  "logic_np key procs =
     map_option (\<lambda>s. map (\<lambda>i. np_procs s ! i) (np_res s))
       (while_option np_cond (np_body key) (np_init procs))"

definition logic_sjf :: "Process list \<Rightarrow> Process list option" where
  "logic_sjf = logic_np Process.burst_time"

definition logic_priority :: "Process list \<Rightarrow> Process list option" where
  "logic_priority = logic_np Process.priority"

text \<open>\<^verbatim>\<open>logic_rr\<close>.  The queue holds references to the objects of \<^verbatim>\<open>procs\<close>, kept as
  positions.  \<^verbatim>\<open>procs[0]\<close> raises \<^verbatim>\<open>IndexError\<close> on the empty list.\<close>

record lrr_state =
  lrr_procs :: "Process list"
  lrr_queue :: "nat list"
  lrr_t :: int
  lrr_count :: nat
  lrr_res :: "nat list"
  lrr_visited :: "bool list"
  lrr_gantt_log :: "string segment list"

text \<open>\<^verbatim>\<open>for i, p in enumerate(procs): if p.arrival_time <= t and not visited[i]:
  queue.append(p); visited[i] = True\<close>: the test, the body and the loop.\<close>

definition lrr_due :: "lrr_state \<Rightarrow> nat \<Rightarrow> bool" where
  "lrr_due s i =
     (Process.arrival_time (lrr_procs s ! i) \<le> lrr_t s \<and> \<not> lrr_visited s ! i)"

definition lrr_enqueue :: "nat \<Rightarrow> lrr_state \<Rightarrow> lrr_state" where
  "lrr_enqueue i s =
     (if lrr_due s i
      then s\<lparr>lrr_queue := lrr_queue s @ [i], lrr_visited := (lrr_visited s)[i := True]\<rparr>
      else s)"

definition lrr_scan :: "lrr_state \<Rightarrow> lrr_state" where
  "lrr_scan s = fold lrr_enqueue [0..<length (lrr_procs s)] s"

definition lrr_body :: "int \<Rightarrow> lrr_state \<Rightarrow> lrr_state" where
  "lrr_body q s =
     (case lrr_queue s of
        [] \<Rightarrow> lrr_scan (s\<lparr>lrr_t := lrr_t s + 1\<rparr>)
      | cur # rest \<Rightarrow>
          let start_this_turn = lrr_t s;
              p = lrr_procs s ! cur;
              run = min (Process.remaining_time p) q;
              p1 = p\<lparr>Process.remaining_time := Process.remaining_time p - run\<rparr>;
              t1 = lrr_t s + run;
              s1 = lrr_scan (s\<lparr>lrr_queue := rest,
                               lrr_procs := (lrr_procs s)[cur := p1],
                               lrr_t := t1,
                               lrr_gantt_log := lrr_gantt_log s @
                                  [(Process.pid p, start_this_turn, t1)]\<rparr>)
          in if Process.remaining_time p1 > 0
             then s1\<lparr>lrr_queue := lrr_queue s1 @ [cur]\<rparr>
             else
               let p2 = p1\<lparr>Process.completion_time := t1,
                           Process.turnaround_time := t1 - Process.arrival_time p1\<rparr>;
                   p3 = p2\<lparr>Process.waiting_time :=
                              Process.turnaround_time p2 - Process.burst_time p2\<rparr>
               in s1\<lparr>lrr_procs := (lrr_procs s1)[cur := p3],
                      lrr_count := lrr_count s1 + 1,
                      lrr_res := lrr_res s1 @ [cur]\<rparr>)"

definition lrr_cond :: "lrr_state \<Rightarrow> bool" where
  "lrr_cond s = (lrr_count s < length (lrr_procs s))"

definition lrr_init :: "Process list \<Rightarrow> lrr_state" where
  "lrr_init procs =
     \<lparr>lrr_procs = procs, lrr_queue = [0], lrr_t = 0, lrr_count = 0, lrr_res = [],
      lrr_visited = (replicate (length procs) False)[0 := True], lrr_gantt_log = []\<rparr>"

text \<open>The result: \<^verbatim>\<open>res\<close> and the log stored in \<^verbatim>\<open>self.rr_gantt_data\<close>.\<close>

definition logic_rr ::
  "Process list \<Rightarrow> int \<Rightarrow> (error + Process list \<times> string segment list) option" where
  "logic_rr procs0 q =
     (let procs = sort_key Process.arrival_time procs0 in
      if procs = [] then Some (Inl IndexError)
      else map_option
             (\<lambda>s. Inr (map (\<lambda>i. lrr_procs s ! i) (lrr_res s), lrr_gantt_log s))
             (while_option lrr_cond (lrr_body q) (lrr_init procs)))"

subsection \<open>\<^verbatim>\<open>sjf.py\<close> and \<^verbatim>\<open>rr.py\<close>: class \<^verbatim>\<open>Process\<close>\<close>

text \<open>Both modules declare the same class, but for the initial value of
  \<^verbatim>\<open>completion\<close>: \<^verbatim>\<open>None\<close> in \<^verbatim>\<open>sjf.py\<close>, \<^verbatim>\<open>0\<close> in \<^verbatim>\<open>rr.py\<close>.  The schedulers
  mutate the objects of the caller's list; a list of objects is a list of records,
  and a reference to an object is its position in that list.\<close>

record proc =
  pid :: int
  arrival :: int
  burst :: int
  remaining :: int
  completion :: "int option"
  turnaround :: int
  waiting :: int

definition sjf_Process :: "int \<Rightarrow> int \<Rightarrow> int \<Rightarrow> proc" where
  "sjf_Process p a b =
     \<lparr>proc.pid = p, arrival = a, burst = b, remaining = b, completion = None,
      turnaround = 0, waiting = 0\<rparr>"

definition rr_Process :: "int \<Rightarrow> int \<Rightarrow> int \<Rightarrow> proc" where
  "rr_Process p a b =
     \<lparr>proc.pid = p, arrival = a, burst = b, remaining = b, completion = Some 0,
      turnaround = 0, waiting = 0\<rparr>"

text \<open>The three assignments made when a process finishes at time \<open>t\<close>.\<close>

definition finish :: "int \<Rightarrow> proc \<Rightarrow> proc" where
  "finish t p =
     (let p1 = p\<lparr>completion := Some t\<rparr>;
          p2 = p1\<lparr>turnaround := t - arrival p1\<rparr>
      in p2\<lparr>waiting := turnaround p2 - burst p2\<rparr>)"

subsection \<open>\<^verbatim>\<open>sjf.py\<close>: \<^verbatim>\<open>sjf_non_preemptive\<close>\<close>

record sjf_state =
  sjf_processes :: "proc list"
  sjf_time :: int
  sjf_completed :: nat
  sjf_gantt :: "int segment list"

definition sjf_ready_queue :: "sjf_state \<Rightarrow> nat list" where
  "sjf_ready_queue s =
     filter (\<lambda>i. arrival (sjf_processes s ! i) \<le> sjf_time s
                 \<and> completion (sjf_processes s ! i) = None)
       [0..<length (sjf_processes s)]"

definition sjf_body :: "sjf_state \<Rightarrow> sjf_state" where
  "sjf_body s =
     (case sjf_ready_queue s of
        [] \<Rightarrow> s\<lparr>sjf_time := sjf_time s + 1\<rparr>
      | i # rest \<Rightarrow>
          let current = py_min_from (\<lambda>i. burst (sjf_processes s ! i)) i rest;
              p = sjf_processes s ! current;
              start = sjf_time s;
              time1 = sjf_time s + burst p
          in s\<lparr>sjf_time := time1,
               sjf_processes := (sjf_processes s)[current := finish time1 p],
               sjf_gantt := sjf_gantt s @ [(proc.pid p, start, time1)],
               sjf_completed := sjf_completed s + 1\<rparr>)"

definition sjf_cond :: "sjf_state \<Rightarrow> bool" where
  "sjf_cond s = (sjf_completed s < length (sjf_processes s))"

text \<open>The function returns the chart; the caller keeps the mutated objects.\<close>

definition sjf_non_preemptive :: "proc list \<Rightarrow> (int segment list \<times> proc list) option" where
  "sjf_non_preemptive processes0 =
     map_option (\<lambda>s. (sjf_gantt s, sjf_processes s))
       (while_option sjf_cond sjf_body
          \<lparr>sjf_processes = processes0, sjf_time = 0, sjf_completed = 0, sjf_gantt = []\<rparr>)"

subsection \<open>\<^verbatim>\<open>sjf.py\<close>: \<^verbatim>\<open>sjf_preemptive\<close>\<close>

text \<open>The chart holds pairs (pid, time of the context switch), with no end time.
  \<^verbatim>\<open>current_process != shortest\<close> compares object identities.\<close>

record srtf_state =
  srtf_processes :: "proc list"
  srtf_time :: int
  srtf_completed :: nat
  srtf_gantt :: "(int \<times> int) list"
  srtf_current_process :: "nat option"

definition srtf_ready_queue :: "srtf_state \<Rightarrow> nat list" where
  "srtf_ready_queue s =
     filter (\<lambda>i. arrival (srtf_processes s ! i) \<le> srtf_time s
                 \<and> remaining (srtf_processes s ! i) > 0)
       [0..<length (srtf_processes s)]"

definition srtf_body :: "srtf_state \<Rightarrow> srtf_state" where
  "srtf_body s =
     (case srtf_ready_queue s of
        [] \<Rightarrow> s\<lparr>srtf_time := srtf_time s + 1\<rparr>
      | i # rest \<Rightarrow>
          let shortest = py_min_from (\<lambda>i. remaining (srtf_processes s ! i)) i rest;
              p = srtf_processes s ! shortest;
              gantt1 = (if srtf_current_process s \<noteq> Some shortest
                        then srtf_gantt s @ [(proc.pid p, srtf_time s)] else srtf_gantt s);
              p1 = p\<lparr>remaining := remaining p - 1\<rparr>;
              time1 = srtf_time s + 1;
              s1 = s\<lparr>srtf_gantt := gantt1, srtf_current_process := Some shortest,
                     srtf_time := time1\<rparr>
          in if remaining p1 = 0
             then s1\<lparr>srtf_processes := (srtf_processes s)[shortest := finish time1 p1],
                     srtf_completed := srtf_completed s + 1\<rparr>
             else s1\<lparr>srtf_processes := (srtf_processes s)[shortest := p1]\<rparr>)"

definition srtf_cond :: "srtf_state \<Rightarrow> bool" where
  "srtf_cond s = (srtf_completed s < length (srtf_processes s))"

definition sjf_preemptive :: "proc list \<Rightarrow> ((int \<times> int) list \<times> proc list) option" where
  "sjf_preemptive processes0 =
     map_option (\<lambda>s. (srtf_gantt s, srtf_processes s))
       (while_option srtf_cond srtf_body
          \<lparr>srtf_processes = processes0, srtf_time = 0, srtf_completed = 0,
           srtf_gantt = [], srtf_current_process = None\<rparr>)"

subsection \<open>\<^verbatim>\<open>rr.py\<close>: \<^verbatim>\<open>round_robin\<close>\<close>

record rr_state =
  rr_processes :: "proc list"
  rr_time :: int
  rr_gantt :: "int segment list"
  rr_queue :: "nat list"
  rr_completed :: nat
  rr_arrived :: "bool list"

text \<open>The two \<^verbatim>\<open>for i, p in enumerate(processes)\<close> loops: the one at the head of an
  iteration tests \<^verbatim>\<open>p.arrival <= time\<close>, the one after the slice tests
  \<^verbatim>\<open>p.arrival > start and p.arrival <= time\<close>; \<open>lo\<close> is the optional lower bound.
  Both also test \<^verbatim>\<open>not arrived[i]\<close>, append \<^verbatim>\<open>p\<close> to the queue and set \<^verbatim>\<open>arrived[i]\<close>.\<close>

definition rr_due :: "int option \<Rightarrow> rr_state \<Rightarrow> nat \<Rightarrow> bool" where
  "rr_due lo s i =
     ((case lo of None \<Rightarrow> True | Some start \<Rightarrow> arrival (rr_processes s ! i) > start)
      \<and> arrival (rr_processes s ! i) \<le> rr_time s \<and> \<not> rr_arrived s ! i)"

definition rr_enqueue :: "int option \<Rightarrow> nat \<Rightarrow> rr_state \<Rightarrow> rr_state" where
  "rr_enqueue lo i s =
     (if rr_due lo s i
      then s\<lparr>rr_queue := rr_queue s @ [i], rr_arrived := (rr_arrived s)[i := True]\<rparr>
      else s)"

definition rr_scan :: "int option \<Rightarrow> rr_state \<Rightarrow> rr_state" where
  "rr_scan lo s = fold (rr_enqueue lo) [0..<length (rr_processes s)] s"

definition rr_body :: "int \<Rightarrow> rr_state \<Rightarrow> rr_state" where
  "rr_body time_quantum s0 =
     (let s = rr_scan None s0 in
      case rr_queue s of
        [] \<Rightarrow> s\<lparr>rr_time := rr_time s + 1\<rparr>
      | current # rest \<Rightarrow>
          let start = rr_time s;
              p = rr_processes s ! current;
              execute_time = min (remaining p) time_quantum;
              time1 = rr_time s + execute_time;
              p1 = p\<lparr>remaining := remaining p - execute_time\<rparr>;
              s1 = rr_scan (Some start)
                     (s\<lparr>rr_queue := rest, rr_time := time1,
                        rr_processes := (rr_processes s)[current := p1],
                        rr_gantt := rr_gantt s @ [(proc.pid p, start, time1)]\<rparr>)
          in if remaining p1 > 0
             then s1\<lparr>rr_queue := rr_queue s1 @ [current]\<rparr>
             else s1\<lparr>rr_processes := (rr_processes s1)[current := finish time1 p1],
                     rr_completed := rr_completed s1 + 1\<rparr>)"

definition rr_cond :: "rr_state \<Rightarrow> bool" where
  "rr_cond s = (rr_completed s < length (rr_processes s))"

definition rr_init :: "proc list \<Rightarrow> rr_state" where
  "rr_init processes0 =
     \<lparr>rr_processes = sort_key arrival processes0, rr_time = 0, rr_gantt = [],
      rr_queue = [], rr_completed = 0,
      rr_arrived = replicate (length processes0) False\<rparr>"

text \<open>The function returns the chart; the caller's list is left sorted and its objects
  mutated, which is the second component.\<close>

definition round_robin :: "proc list \<Rightarrow> int \<Rightarrow> (int segment list \<times> proc list) option" where
  "round_robin processes0 time_quantum =
     map_option (\<lambda>s. (rr_gantt s, rr_processes s))
       (while_option rr_cond (rr_body time_quantum) (rr_init processes0))"

subsection \<open>\<^verbatim>\<open>priority_scheduling.py\<close>\<close>

text \<open>\<^verbatim>\<open>round(x, 2)\<close> on an exact number: to the nearest hundredth, a tie to the even
  one.  (On a float Python rounds the binary value, which can differ in the last digit
  from the decimal one read here.)\<close>

definition round_half_even :: "real \<Rightarrow> int" where
  "round_half_even x =
     (let f = \<lfloor>x\<rfloor>; d = x - of_int f
      in if d < 1 / 2 then f else if d > 1 / 2 then f + 1
         else if even f then f else f + 1)"

definition round2 :: "real \<Rightarrow> real" where
  "round2 x = of_int (round_half_even (x * 100)) / 100"

text \<open>A process is a dictionary with the keys \<^verbatim>\<open>'pid'\<close>, \<^verbatim>\<open>'arrival_time'\<close>,
  \<^verbatim>\<open>'burst_time'\<close>, \<^verbatim>\<open>'priority'\<close>; an entry of \<^verbatim>\<open>completed_processes\<close> has the four
  metric keys too.  Both are values of one record type, so that the test
  \<^verbatim>\<open>p not in completed_processes\<close>, which compares dictionaries key by key, is the
  equality of records: a dictionary without a metric key (\<open>None\<close>) differs from
  every dictionary with it.\<close>

record prio_process =
  pid :: string
  arrival_time :: int
  burst_time :: int
  priority :: int
  start_time :: "int option"
  completion_time :: "int option"
  waiting_time :: "int option"
  turnaround_time :: "int option"

definition prio_input :: "string \<Rightarrow> int \<Rightarrow> int \<Rightarrow> int \<Rightarrow> prio_process" where
  "prio_input p a b pr =
     \<lparr>prio_process.pid = p, arrival_time = a, burst_time = b, priority = pr,
      start_time = None, completion_time = None, waiting_time = None,
      turnaround_time = None\<rparr>"

record prio_results =
  results :: "prio_process list"
  gantt_chart :: "string segment list"
  avg_waiting_time :: real
  avg_turnaround_time :: real
  cpu_utilization :: real

text \<open>The loop state.  \<^verbatim>\<open>min\<close> of an empty generator (step 6) raises \<^verbatim>\<open>ValueError\<close>,
  which ends the loop: \<open>prio_raised\<close>.\<close>

record prio_state =
  prio_current_time :: int
  prio_completed_processes :: "prio_process list"
  prio_gantt_chart :: "string segment list"
  prio_raised :: "error option"

definition prio_available :: "prio_process list \<Rightarrow> prio_state \<Rightarrow> prio_process list" where
  "prio_available procs s =
     filter (\<lambda>p. prio_process.arrival_time p \<le> prio_current_time s
                 \<and> p \<notin> set (prio_completed_processes s))
       procs"

definition prio_body :: "prio_process list \<Rightarrow> prio_state \<Rightarrow> prio_state" where
  "prio_body procs s =
     (case prio_available procs s of
        [] \<Rightarrow>
          (case map prio_process.arrival_time
                  (filter (\<lambda>p. p \<notin> set (prio_completed_processes s)) procs) of
             [] \<Rightarrow> s\<lparr>prio_raised := Some ValueError\<rparr>
           | a # as \<Rightarrow> s\<lparr>prio_current_time := fold min as a\<rparr>)
      | p # rest \<Rightarrow>
          let selected_process = py_min_from prio_process.priority p rest;
              start = prio_current_time s;
              burst = prio_process.burst_time selected_process;
              completion = start + burst;
              arrival = prio_process.arrival_time selected_process;
              result =
                \<lparr>prio_process.pid = prio_process.pid selected_process,
                 arrival_time = arrival, burst_time = burst,
                 priority = prio_process.priority selected_process,
                 start_time = Some start, completion_time = Some completion,
                 waiting_time = Some (start - arrival),
                 turnaround_time = Some (completion - arrival)\<rparr>
          in s\<lparr>prio_gantt_chart := prio_gantt_chart s @
                   [(prio_process.pid selected_process, start, completion)],
               prio_completed_processes := prio_completed_processes s @ [result],
               prio_current_time := completion\<rparr>)"

definition prio_cond :: "prio_process list \<Rightarrow> prio_state \<Rightarrow> bool" where
  "prio_cond procs s =
     (prio_raised s = None \<and> length (prio_completed_processes s) < length procs)"

definition prio_init :: prio_state where
  "prio_init =
     \<lparr>prio_current_time = 0, prio_completed_processes = [], prio_gantt_chart = [],
      prio_raised = None\<rparr>"

text \<open>Steps 13 to 15, on the state the loop ends in.\<close>

definition prio_summary :: "prio_state \<Rightarrow> prio_results" where
  "prio_summary s =
     (let completed_processes = prio_completed_processes s;
          total_waiting_time =
            sum_list (map (\<lambda>p. the (prio_process.waiting_time p)) completed_processes);
          total_turnaround_time =
            sum_list (map (\<lambda>p. the (prio_process.turnaround_time p)) completed_processes);
          avg_waiting = real_of_int total_waiting_time / real (length completed_processes);
          avg_turnaround =
            real_of_int total_turnaround_time / real (length completed_processes);
          total_busy_time = sum_list (map prio_process.burst_time completed_processes);
          total_time_needed = the (prio_process.completion_time (last completed_processes));
          cpu = (if total_time_needed > 0
                 then real_of_int total_busy_time / real_of_int total_time_needed * 100
                 else 0)
      in \<lparr>results = completed_processes, gantt_chart = prio_gantt_chart s,
          avg_waiting_time = round2 avg_waiting,
          avg_turnaround_time = round2 avg_turnaround,
          cpu_utilization = round2 cpu\<rparr>)"

definition priority_scheduling :: "prio_process list \<Rightarrow> (error + prio_results) option" where
  "priority_scheduling procs =
     (if procs = [] then
        Some (Inr \<lparr>results = [], gantt_chart = [], avg_waiting_time = 0,
                   avg_turnaround_time = 0, cpu_utilization = 0\<rparr>)
      else
        map_option
          (\<lambda>s. case prio_raised s of Some e \<Rightarrow> Inl e | None \<Rightarrow> Inr (prio_summary s))
          (while_option (prio_cond procs) (prio_body procs) prio_init))"

text \<open>The example at the end of the module.\<close>

definition prio_example :: "prio_process list" where
  "prio_example =
     [prio_input ''P1'' 0 5 2, prio_input ''P2'' 1 3 1, prio_input ''P3'' 2 4 3,
      prio_input ''P4'' 3 2 2]"

subsection \<open>Notions used to state the properties\<close>

text \<open>\<open>first_min key m ys\<close>: \<open>m\<close> occurs in \<open>ys\<close>, every element before that occurrence
  has a strictly greater key and every element after it a key at least as great.\<close>

definition first_min :: "('a \<Rightarrow> int) \<Rightarrow> 'a \<Rightarrow> 'a list \<Rightarrow> bool" where
  "first_min key m ys =
     (\<exists>pre post. ys = pre @ m # post \<and> (\<forall>y\<in>set pre. key m < key y)
        \<and> (\<forall>y\<in>set post. key m \<le> key y))"

text \<open>Two processes of equal priority, the later arrival first in the list, both
  arrived at time 3: as a state of \<^verbatim>\<open>logic_priority\<close> and as an input of
  \<^verbatim>\<open>priority_scheduling\<close>.\<close>

definition tie_state :: np_state where
  "tie_state = (np_init [Process_init ''X'' 2 1 1, Process_init ''Y'' 1 1 1])\<lparr>np_t := 3\<rparr>"

definition tie_procs :: "prio_process list" where
  "tie_procs = [prio_input ''X'' 2 1 1, prio_input ''Y'' 1 1 1]"

subsection \<open>Round Robin: notions used to state the properties\<close>

text \<open>Well-formed loop states of \<^verbatim>\<open>round_robin\<close>: one flag per process, no position
  twice in the queue, every queued position valid and flagged as arrived.\<close>

definition rr_wf :: "rr_state \<Rightarrow> bool" where
  "rr_wf s =
     (length (rr_arrived s) = length (rr_processes s) \<and> distinct (rr_queue s)
      \<and> (\<forall>i\<in>set (rr_queue s). i < length (rr_processes s) \<and> rr_arrived s ! i))"

text \<open>The position that the iteration starting in state \<open>s\<close> takes from the queue,
  if any.\<close>

definition rr_dequeued :: "rr_state \<Rightarrow> nat option" where
  "rr_dequeued s = (case rr_queue (rr_scan None s) of [] \<Rightarrow> None | current # rest \<Rightarrow> Some current)"

text \<open>The same notions for \<^verbatim>\<open>logic_rr\<close>.\<close>

definition lrr_wf :: "lrr_state \<Rightarrow> bool" where
  "lrr_wf s =
     (length (lrr_visited s) = length (lrr_procs s) \<and> distinct (lrr_queue s)
      \<and> (\<forall>i\<in>set (lrr_queue s). i < length (lrr_procs s) \<and> lrr_visited s ! i))"

definition lrr_dequeued :: "lrr_state \<Rightarrow> nat option" where
  "lrr_dequeued s = (case lrr_queue s of [] \<Rightarrow> None | cur # rest \<Rightarrow> Some cur)"

definition lrr_slice :: "int \<Rightarrow> nat \<Rightarrow> nat list \<Rightarrow> lrr_state \<Rightarrow> lrr_state" where
  "lrr_slice q cur rest s =
     (let p = lrr_procs s ! cur;
          run = min (Process.remaining_time p) q
      in s\<lparr>lrr_queue := rest,
           lrr_procs := (lrr_procs s)[cur := p\<lparr>Process.remaining_time := Process.remaining_time p - run\<rparr>],
           lrr_t := lrr_t s + run,
           lrr_gantt_log := lrr_gantt_log s @ [(Process.pid p, lrr_t s, lrr_t s + run)]\<rparr>)"

text \<open>The processes not flagged in state \<open>s\<close> whose arrival time is at most \<open>t\<close>, in
  list order.\<close>

definition rr_new_arrivals :: "rr_state \<Rightarrow> int \<Rightarrow> nat list" where
  "rr_new_arrivals s t =
     filter (\<lambda>i. arrival (rr_processes s ! i) \<le> t \<and> \<not> rr_arrived s ! i)
       [0..<length (rr_processes s)]"

definition lrr_new_arrivals :: "lrr_state \<Rightarrow> int \<Rightarrow> nat list" where
  "lrr_new_arrivals s t =
     filter (\<lambda>i. Process.arrival_time (lrr_procs s ! i) \<le> t \<and> \<not> lrr_visited s ! i)
       [0..<length (lrr_procs s)]"

text \<open>The sample processes of \<^verbatim>\<open>rr.py\<close> (quantum 3), and the same three in the GUI.\<close>

definition rr_example :: "proc list" where
  "rr_example = [rr_Process 1 0 8, rr_Process 2 1 4, rr_Process 3 2 2]"

definition gui_example :: "Process list" where
  "gui_example = [Process_init ''P1'' 0 8 0, Process_init ''P2'' 1 4 0, Process_init ''P3'' 2 2 0]"

text \<open>The processes that have left the queue for good.\<close>

definition rr_done :: "rr_state \<Rightarrow> nat set" where
  "rr_done s =
     {i. i < length (rr_processes s) \<and> rr_arrived s ! i \<and> i \<notin> set (rr_queue s)}"

text \<open>The loop invariant of \<^verbatim>\<open>round_robin\<close>: the counter \<^verbatim>\<open>completed\<close> counts the
  processes that have left the queue, and each of them has no remaining time and a
  completion time.\<close>

definition rr_inv :: "rr_state \<Rightarrow> bool" where
  "rr_inv s =
     (rr_wf s \<and> rr_completed s = card (rr_done s)
      \<and> (\<forall>i\<in>rr_done s. remaining (rr_processes s ! i) = 0
                          \<and> completion (rr_processes s ! i) \<noteq> None))"

text \<open>The fields of a process that no scheduler writes.\<close>

definition identity :: "proc \<Rightarrow> int \<times> int \<times> int" where
  "identity p = (proc.pid p, arrival p, burst p)"

text \<open>The three quantities of the termination argument: processes left to complete,
  remaining work, distance of the clock to the last arrival.\<close>

definition rr_left :: "rr_state \<Rightarrow> nat" where
  "rr_left s = length (rr_processes s) - rr_completed s"

definition rr_work :: "rr_state \<Rightarrow> nat" where
  "rr_work s = sum_list (map (\<lambda>p. nat (remaining p)) (rr_processes s))"

definition rr_wait :: "rr_state \<Rightarrow> nat" where
  "rr_wait s = nat (Max (set (map arrival (rr_processes s))) - rr_time s)"





text \<open>The metrics of a finished process of \<^verbatim>\<open>sjf.py\<close> or \<^verbatim>\<open>rr.py\<close>, as the
  specification wants them: turnaround = completion - arrival, waiting = turnaround -
  burst, waiting at least 0, turnaround at least the burst.\<close>

definition metrics_ok :: "proc \<Rightarrow> bool" where
  "metrics_ok p =
     ((\<exists>c. completion p = Some c \<and> turnaround p = c - arrival p)
      \<and> waiting p = turnaround p - burst p \<and> 0 \<le> waiting p \<and> burst p \<le> turnaround p)"

text \<open>The part of the loop invariant of \<^verbatim>\<open>round_robin\<close> that is about time: no
  process has run for longer than the time since its arrival.\<close>

definition rr_metrics_inv :: "rr_state \<Rightarrow> bool" where
  "rr_metrics_inv s =
     ((\<forall>i<length (rr_processes s).
         0 < burst (rr_processes s ! i) \<and> 0 \<le> remaining (rr_processes s ! i)
         \<and> (rr_arrived s ! i \<longrightarrow> arrival (rr_processes s ! i) \<le> rr_time s)
         \<and> burst (rr_processes s ! i) - remaining (rr_processes s ! i)
               \<le> max 0 (rr_time s - arrival (rr_processes s ! i)))
      \<and> (\<forall>i\<in>rr_done s. metrics_ok (rr_processes s ! i)))"

text \<open>The loop invariant of \<^verbatim>\<open>sjf_non_preemptive\<close>: the counter \<^verbatim>\<open>completed\<close> counts
  the processes with a completion time, these have the metrics of the specification,
  and the chart accounts for exactly their burst times.\<close>

definition sjf_finished :: "sjf_state \<Rightarrow> nat set" where
  "sjf_finished s = {i. i < length (sjf_processes s) \<and> completion (sjf_processes s ! i) \<noteq> None}"

definition sjf_pending :: "proc \<Rightarrow> int" where
  "sjf_pending p = (if completion p = None then burst p else 0)"

definition sjf_inv :: "proc list \<Rightarrow> sjf_state \<Rightarrow> bool" where
  "sjf_inv procs s =
     (sjf_completed s = card (sjf_finished s)
      \<and> map identity (sjf_processes s) = map identity procs
      \<and> (\<forall>i\<in>sjf_finished s. metrics_ok (sjf_processes s ! i))
      \<and> sum_list (map duration (sjf_gantt s)) + sum_list (map sjf_pending (sjf_processes s))
          = sum_list (map burst procs))"

definition sjf_left :: "sjf_state \<Rightarrow> nat" where
  "sjf_left s = length (sjf_processes s) - sjf_completed s"

definition sjf_wait :: "sjf_state \<Rightarrow> nat" where
  "sjf_wait s = nat (Max (set (map arrival (sjf_processes s))) - sjf_time s)"

text \<open>The loop invariant of \<^verbatim>\<open>sjf_preemptive\<close> on valid input: the counter \<^verbatim>\<open>completed\<close>
  counts the processes with no remaining time, no process has run for longer than the
  time since its arrival, and the finished ones have the metrics of the specification.\<close>

definition srtf_finished :: "srtf_state \<Rightarrow> nat set" where
  "srtf_finished s = {i. i < length (srtf_processes s) \<and> remaining (srtf_processes s ! i) = 0}"

definition srtf_inv :: "proc list \<Rightarrow> srtf_state \<Rightarrow> bool" where
  "srtf_inv procs s =
     (srtf_completed s = card (srtf_finished s)
      \<and> map identity (srtf_processes s) = map identity procs
      \<and> (\<forall>i<length (srtf_processes s).
            0 < burst (srtf_processes s ! i) \<and> 0 \<le> remaining (srtf_processes s ! i)
            \<and> burst (srtf_processes s ! i) - remaining (srtf_processes s ! i)
                  \<le> max 0 (srtf_time s - arrival (srtf_processes s ! i)))
      \<and> (\<forall>i\<in>srtf_finished s. metrics_ok (srtf_processes s ! i)))"

definition srtf_work :: "srtf_state \<Rightarrow> nat" where
  "srtf_work s = sum_list (map (\<lambda>p. nat (remaining p)) (srtf_processes s))"

definition srtf_wait :: "srtf_state \<Rightarrow> nat" where
  "srtf_wait s = nat (Max (set (map arrival (srtf_processes s))) - srtf_time s)"

text \<open>The metrics of the specification on a dictionary of \<^verbatim>\<open>fcfs_scheduling\<close> or
  \<^verbatim>\<open>priority_scheduling\<close> and on an object of \<^verbatim>\<open>main.py\<close>.\<close>

definition fcfs_metrics_ok :: "fcfs_process \<Rightarrow> bool" where
  "fcfs_metrics_ok p =
     (\<exists>c. fcfs_process.completion_time p = Some c
        \<and> fcfs_process.turnaround_time p = Some (c - fcfs_process.arrival_time p)
        \<and> fcfs_process.waiting_time p
            = Some (c - fcfs_process.arrival_time p - fcfs_process.burst_time p)
        \<and> 0 \<le> c - fcfs_process.arrival_time p - fcfs_process.burst_time p
        \<and> fcfs_process.burst_time p \<le> c - fcfs_process.arrival_time p)"

definition prio_metrics_ok :: "prio_process \<Rightarrow> bool" where
  "prio_metrics_ok p =
     (\<exists>c. prio_process.completion_time p = Some c
        \<and> prio_process.turnaround_time p = Some (c - prio_process.arrival_time p)
        \<and> prio_process.waiting_time p
            = Some (c - prio_process.arrival_time p - prio_process.burst_time p)
        \<and> 0 \<le> c - prio_process.arrival_time p - prio_process.burst_time p
        \<and> prio_process.burst_time p \<le> c - prio_process.arrival_time p)"

definition Process_metrics_ok :: "Process \<Rightarrow> bool" where
  "Process_metrics_ok p =
     (Process.turnaround_time p = Process.completion_time p - Process.arrival_time p
      \<and> Process.waiting_time p = Process.turnaround_time p - Process.burst_time p
      \<and> 0 \<le> Process.waiting_time p
      \<and> Process.burst_time p \<le> Process.turnaround_time p)"

section \<open>Theorems\<close>

lemma fcfs_example1_loop:
  "fcfs_loop 0 (sort_key fcfs_process.arrival_time processes_example1) =
     ([(fcfs_input ''P1'' 0 8)\<lparr>fcfs_process.start_time := Some 0, fcfs_process.completion_time := Some 8,
          fcfs_process.waiting_time := Some 0, fcfs_process.turnaround_time := Some 8\<rparr>,
       (fcfs_input ''P2'' 1 4)\<lparr>fcfs_process.start_time := Some 8, fcfs_process.completion_time := Some 12,
          fcfs_process.waiting_time := Some 7, fcfs_process.turnaround_time := Some 11\<rparr>,
       (fcfs_input ''P3'' 2 2)\<lparr>fcfs_process.start_time := Some 12, fcfs_process.completion_time := Some 14,
          fcfs_process.waiting_time := Some 10, fcfs_process.turnaround_time := Some 12\<rparr>],
      [(''P1'', 0, 8), (''P2'', 8, 12), (''P3'', 12, 14)], 14)"
  by (simp add: processes_example1_def fcfs_input_def fcfs_body_def)

text \<open>
  Claim C2.  On the processes P1 (arrival 0, burst 8), P2 (arrival 1, burst 4) and
  P3 (arrival 2, burst 2), \<^verbatim>\<open>fcfs_scheduling\<close> returns the Gantt chart
  (P1,0,8), (P2,8,12), (P3,12,14), the waiting times 0, 7, 10, the turnaround times
  8, 11, 12, the average waiting time 17/3, the average turnaround time 31/3 and the
  CPU utilisation 100.
\<close>

theorem fcfs_example1:
  "fcfs_results.gantt_chart (fcfs_scheduling processes_example1) =
     [(''P1'', 0, 8), (''P2'', 8, 12), (''P3'', 12, 14)]
   \<and> map fcfs_process.pid (fcfs_results.processes (fcfs_scheduling processes_example1)) =
       [''P1'', ''P2'', ''P3'']
   \<and> map fcfs_process.waiting_time (fcfs_results.processes (fcfs_scheduling processes_example1)) =
       [Some 0, Some 7, Some 10]
   \<and> map fcfs_process.turnaround_time (fcfs_results.processes (fcfs_scheduling processes_example1)) =
       [Some 8, Some 11, Some 12]
   \<and> fcfs_results.avg_waiting_time (fcfs_scheduling processes_example1) = 17 / 3
   \<and> fcfs_results.avg_turnaround_time (fcfs_scheduling processes_example1) = 31 / 3
   \<and> fcfs_results.cpu_utilization (fcfs_scheduling processes_example1) = 100"
  by (simp add: fcfs_scheduling_def fcfs_example1_loop fcfs_input_def)

subsection \<open>Python's \<^verbatim>\<open>min\<close> with a key returns the first least element\<close>


lemma first_minI:
  "ys = pre @ m # post \<Longrightarrow> \<forall>y\<in>set pre. key m < key y \<Longrightarrow> \<forall>y\<in>set post. key m \<le> key y
   \<Longrightarrow> first_min key m ys"
  unfolding first_min_def by blast

lemma first_min_step:
  assumes "first_min key best ys"
  shows "first_min key (if key x < key best then x else best) (ys @ [x])"
proof -
  from assms obtain pre post where ys: "ys = pre @ best # post"
    and pre: "\<forall>y\<in>set pre. key best < key y" and post: "\<forall>y\<in>set post. key best \<le> key y"
    unfolding first_min_def by blast
  show ?thesis
  proof (cases "key x < key best")
    case True
    have "key x < key y" if "y \<in> set ys" for y
    proof -
      from that ys consider "y \<in> set pre" | "y = best" | "y \<in> set post" by auto
      then show ?thesis
      proof cases
        case 1 then show ?thesis using pre True by force
      next
        case 2 then show ?thesis using True by simp
      next
        case 3 then show ?thesis using post True by force
      qed
    qed
    then have "\<forall>y\<in>set ys. key x < key y" by blast
    then have "first_min key x (ys @ [x])"
      by (intro first_minI[where pre = ys and post = "[]"]) simp_all
    then show ?thesis using True by simp
  next
    case False
    have "ys @ [x] = pre @ best # (post @ [x])" using ys by simp
    moreover have "\<forall>y\<in>set (post @ [x]). key best \<le> key y" using post False by auto
    ultimately have "first_min key best (ys @ [x])"
      using pre by (intro first_minI[where pre = pre and post = "post @ [x]"]) simp_all
    then show ?thesis using False by simp
  qed
qed

lemma py_min_from_first_min_gen:
  "first_min key best ys \<Longrightarrow> first_min key (py_min_from key best xs) (ys @ xs)"
proof (induction xs arbitrary: best ys)
  case Nil
  then show ?case by simp
next
  case (Cons x xs)
  from first_min_step[OF Cons.prems, of x]
  have "first_min key (if key x < key best then x else best) (ys @ [x])" .
  from Cons.IH[OF this] show ?case by simp
qed

lemma py_min_from_first_min: "first_min key (py_min_from key x xs) (x # xs)"
proof -
  have "first_min key x [x]"
    by (intro first_minI[where pre = "[]" and post = "[]"]) simp_all
  from py_min_from_first_min_gen[OF this, of xs] show ?thesis by simp
qed

lemma first_min_mem: "first_min key m ys \<Longrightarrow> m \<in> set ys"
  unfolding first_min_def by auto

lemma first_min_le:
  assumes "first_min key m ys" "y \<in> set ys"
  shows "key m \<le> key y"
proof -
  from assms(1) obtain pre post where ys: "ys = pre @ m # post"
    and pre: "\<forall>y\<in>set pre. key m < key y" and post: "\<forall>y\<in>set post. key m \<le> key y"
    unfolding first_min_def by blast
  from assms(2) ys consider "y \<in> set pre" | "y = m" | "y \<in> set post" by auto
  then show ?thesis
  proof cases
    case 1 then show ?thesis using pre by (simp add: less_imp_le)
  next
    case 2 then show ?thesis by simp
  next
    case 3 then show ?thesis using post by simp
  qed
qed

text \<open>In an increasing list of positions, the first least element is the smallest
  position among those of least key.\<close>
lemma first_min_sorted_index:
  assumes "first_min key m ys" "sorted ys" "distinct ys" "j \<in> set ys" "key j = key m"
  shows "(m::nat) \<le> j"
proof -
  from assms(1) obtain pre post where ys: "ys = pre @ m # post"
    and pre: "\<forall>y\<in>set pre. key m < key y" and post: "\<forall>y\<in>set post. key m \<le> key y"
    unfolding first_min_def by blast
  from assms(4,5) pre ys have "j = m \<or> j \<in> set post" by auto
  moreover have "\<forall>y\<in>set post. m \<le> y" using assms(2) ys by (simp add: sorted_append)
  ultimately show ?thesis by auto
qed

subsection \<open>Priority: how ties are broken\<close>

lemma np_avail_sorted_distinct: "sorted (np_avail s) \<and> distinct (np_avail s)"
  unfolding np_avail_def by (simp add: sorted_wrt_filter)

lemma np_body_run:
  assumes "np_avail s = i # rest"
  shows "np_res (np_body key s) = np_res s @ [py_min_from (\<lambda>i. key (np_procs s ! i)) i rest]"
  using assms by (simp add: np_body_def Let_def)

lemma prio_body_run:
  assumes "prio_available procs st = p # rest"
  shows "prio_gantt_chart (prio_body procs st) =
           prio_gantt_chart st @
             [(prio_process.pid (py_min_from prio_process.priority p rest),
               prio_current_time st,
               prio_current_time st
                 + prio_process.burst_time (py_min_from prio_process.priority p rest))]"
  using assms by (simp add: prio_body_def Let_def)

text \<open>
  Claim C4, as amended.  Among the ready processes of least priority value, both
  \<^verbatim>\<open>logic_priority\<close> (\<^verbatim>\<open>main.py\<close>) and \<^verbatim>\<open>priority_scheduling\<close> run the one that comes
  first in the input list, whatever the arrival times: the position chosen by
  \<^verbatim>\<open>logic_priority\<close> has the least priority value of the ready positions and is the
  smallest such position; the dictionary chosen by \<^verbatim>\<open>priority_scheduling\<close> splits the
  ready list into strictly greater priorities before it and greater or equal ones
  after it.
\<close>

theorem priority_tie_break_input_order:
  "(np_avail s \<noteq> [] \<longrightarrow>
      (\<exists>idx. np_res (np_body Process.priority s) = np_res s @ [idx]
         \<and> idx \<in> set (np_avail s)
         \<and> (\<forall>j\<in>set (np_avail s).
               Process.priority (np_procs s ! idx) \<le> Process.priority (np_procs s ! j)
               \<and> (Process.priority (np_procs s ! j) = Process.priority (np_procs s ! idx)
                    \<longrightarrow> idx \<le> j))))
   \<and> (prio_available procs st \<noteq> [] \<longrightarrow>
      (\<exists>pre sel post.
         prio_available procs st = pre @ sel # post
         \<and> (\<forall>y\<in>set pre. prio_process.priority sel < prio_process.priority y)
         \<and> (\<forall>y\<in>set post. prio_process.priority sel \<le> prio_process.priority y)
         \<and> prio_gantt_chart (prio_body procs st) =
             prio_gantt_chart st @
               [(prio_process.pid sel, prio_current_time st,
                 prio_current_time st + prio_process.burst_time sel)]))"
proof (intro conjI impI)
  assume "np_avail s \<noteq> []"
  then obtain i rest where av: "np_avail s = i # rest" by (cases "np_avail s") auto
  let ?key = "\<lambda>i. Process.priority (np_procs s ! i)"
  let ?idx = "py_min_from ?key i rest"
  have fm: "first_min ?key ?idx (np_avail s)"
    unfolding av by (rule py_min_from_first_min)
  have 1: "np_res (np_body Process.priority s) = np_res s @ [?idx]"
    by (rule np_body_run[OF av])
  have 2: "?idx \<in> set (np_avail s)" by (rule first_min_mem[OF fm])
  have 3: "?key ?idx \<le> ?key j \<and> (?key j = ?key ?idx \<longrightarrow> ?idx \<le> j)"
    if "j \<in> set (np_avail s)" for j
    using first_min_le[OF fm that] first_min_sorted_index[OF fm _ _ that]
      np_avail_sorted_distinct[of s] by simp
  from 1 2 3 show "\<exists>idx. np_res (np_body Process.priority s) = np_res s @ [idx]
         \<and> idx \<in> set (np_avail s)
         \<and> (\<forall>j\<in>set (np_avail s).
               Process.priority (np_procs s ! idx) \<le> Process.priority (np_procs s ! j)
               \<and> (Process.priority (np_procs s ! j) = Process.priority (np_procs s ! idx)
                    \<longrightarrow> idx \<le> j))"
    by blast
next
  assume "prio_available procs st \<noteq> []"
  then obtain p rest where av: "prio_available procs st = p # rest"
    by (cases "prio_available procs st") auto
  let ?sel = "py_min_from prio_process.priority p rest"
  have "first_min prio_process.priority ?sel (prio_available procs st)"
    unfolding av by (rule py_min_from_first_min)
  then obtain pre post where
    "prio_available procs st = pre @ ?sel # post"
    "\<forall>y\<in>set pre. prio_process.priority ?sel < prio_process.priority y"
    "\<forall>y\<in>set post. prio_process.priority ?sel \<le> prio_process.priority y"
    unfolding first_min_def by blast
  with prio_body_run[OF av]
  show "\<exists>pre sel post.
         prio_available procs st = pre @ sel # post
         \<and> (\<forall>y\<in>set pre. prio_process.priority sel < prio_process.priority y)
         \<and> (\<forall>y\<in>set post. prio_process.priority sel \<le> prio_process.priority y)
         \<and> prio_gantt_chart (prio_body procs st) =
             prio_gantt_chart st @
               [(prio_process.pid sel, prio_current_time st,
                 prio_current_time st + prio_process.burst_time sel)]"
    by blast
qed

text \<open>The theorem at \<open>tie_state\<close> and \<open>tie_procs\<close>: X, first in the list, runs at
  time 3 although Y arrived before it.\<close>

theorem priority_tie_break_input_order_witness:
  "np_avail tie_state = [0, 1]
   \<and> np_res (np_body Process.priority tie_state) = [0]
   \<and> prio_available tie_procs (prio_init\<lparr>prio_current_time := 3\<rparr>) = tie_procs
   \<and> prio_gantt_chart (prio_body tie_procs (prio_init\<lparr>prio_current_time := 3\<rparr>)) =
       [(''X'', 3, 4)]"
proof -
  have a: "np_avail tie_state = [0, 1]" by code_simp
  have b: "prio_available tie_procs (prio_init\<lparr>prio_current_time := 3\<rparr>) = tie_procs"
    by code_simp
  have c: "np_res (np_body Process.priority tie_state) = [0]" by code_simp
  have d: "prio_gantt_chart (prio_body tie_procs (prio_init\<lparr>prio_current_time := 3\<rparr>)) =
       [(''X'', 3, 4)]" by code_simp
  from priority_tie_break_input_order[of tie_state tie_procs "prio_init\<lparr>prio_current_time := 3\<rparr>"]
    a b c d show ?thesis by simp
qed


text \<open>
  Claim C4 as stated fails: X (arrival 2) and Y (arrival 1) have the same priority 1
  and are both ready at time 3, when Z finishes; \<^verbatim>\<open>logic_priority\<close> runs X, the later
  arrival, first, because it is first in the list.
\<close>

theorem priority_tie_counterexample:
  "logic_priority
     [Process_init ''X'' 2 1 1, Process_init ''Y'' 1 1 1, Process_init ''Z'' 0 3 0] =
   Some [\<lparr>Process.pid = ''Z'', arrival_time = 0, burst_time = 3, priority = 0,
           start_time = 0, completion_time = 3, waiting_time = 0,
           turnaround_time = 3, remaining_time = 3\<rparr>,
         \<lparr>Process.pid = ''X'', arrival_time = 2, burst_time = 1, priority = 1,
           start_time = 3, completion_time = 4, waiting_time = 1,
           turnaround_time = 2, remaining_time = 1\<rparr>,
         \<lparr>Process.pid = ''Y'', arrival_time = 1, burst_time = 1, priority = 1,
           start_time = 4, completion_time = 5, waiting_time = 3,
           turnaround_time = 4, remaining_time = 1\<rparr>]"
  by code_simp

subsection \<open>Runs that contradict the specification\<close>

text \<open>
  Claim C1 (waiting time at least 0, turnaround at least the burst) fails in
  \<^verbatim>\<open>logic_rr\<close>: the queue starts as \<^verbatim>\<open>[procs[0]]\<close> at time 0 whatever the arrival time
  of that process, so a single process arriving at 5 with burst 3 runs from 0 to 3 and
  is given the waiting time -5 and the turnaround time -2.
\<close>

theorem logic_rr_runs_before_arrival:
  "logic_rr [Process_init ''P1'' 5 3 0] 2 =
     Some (Inr ([\<lparr>Process.pid = ''P1'', arrival_time = 5, burst_time = 3, priority = 0,
                   start_time = 0, completion_time = 3, waiting_time = - 5,
                   turnaround_time = - 2, remaining_time = 0\<rparr>],
                [(''P1'', 0, 2), (''P1'', 2, 3)]))"
  by code_simp

text \<open>
  Claim C6 (the segment durations add up to the burst times) fails in
  \<^verbatim>\<open>priority_scheduling\<close>: an input dictionary never equals an entry of
  \<^verbatim>\<open>completed_processes\<close>, which has four more keys, so a finished process stays
  available.  With A (burst 5, priority 1) and B (burst 3, priority 2) the chart is
  A from 0 to 5 and A again from 5 to 10: durations 10, bursts 8.
\<close>

theorem priority_scheduling_repeats_process:
  "priority_scheduling [prio_input ''A'' 0 5 1, prio_input ''B'' 0 3 2] =
     Some (Inr \<lparr>results =
                  [\<lparr>prio_process.pid = ''A'', arrival_time = 0, burst_time = 5,
                      priority = 1, start_time = Some 0, completion_time = Some 5,
                      waiting_time = Some 0, turnaround_time = Some 5\<rparr>,
                   \<lparr>prio_process.pid = ''A'', arrival_time = 0, burst_time = 5,
                      priority = 1, start_time = Some 5, completion_time = Some 10,
                      waiting_time = Some 5, turnaround_time = Some 10\<rparr>],
                 gantt_chart = [(''A'', 0, 5), (''A'', 5, 10)],
                 avg_waiting_time = 5 / 2, avg_turnaround_time = 15 / 2,
                 cpu_utilization = 100\<rparr>)
   \<and> sum_list (map duration [(''A'', 0, 5), (''A'', 5, 10 :: int)]) = 10
   \<and> sum_list (map prio_process.burst_time
         [prio_input ''A'' 0 5 1, prio_input ''B'' 0 3 2]) = 8"
  by code_simp

text \<open>
  Claim C7 (Round Robin with a quantum of at least the longest burst is FCFS) fails in
  \<^verbatim>\<open>main.py\<close>: for a single process arriving at 5 with burst 3 and quantum 3,
  \<^verbatim>\<open>logic_rr\<close> logs the segment (P1, 0, 3) and \<^verbatim>\<open>logic_fcfs\<close> gives (P1, 5, 8).
\<close>

theorem logic_rr_differs_from_logic_fcfs:
  "logic_rr [Process_init ''P1'' 5 3 0] 3 =
     Some (Inr ([\<lparr>Process.pid = ''P1'', arrival_time = 5, burst_time = 3, priority = 0,
                   start_time = 0, completion_time = 3, waiting_time = - 5,
                   turnaround_time = - 2, remaining_time = 0\<rparr>],
                [(''P1'', 0, 3)]))
   \<and> logic_fcfs [Process_init ''P1'' 5 3 0] =
       [\<lparr>Process.pid = ''P1'', arrival_time = 5, burst_time = 3, priority = 0,
          start_time = 5, completion_time = 8, waiting_time = 0,
          turnaround_time = 3, remaining_time = 3\<rparr>]
   \<and> draw_data (logic_fcfs [Process_init ''P1'' 5 3 0]) = [(''P1'', 5, 8)]"
  by code_simp

text \<open>
  Claim C8 (the loop ends with every process given a completion time) fails in
  \<^verbatim>\<open>priority_scheduling\<close> on the module's own example: the loop ends after four
  entries, which are P1 once and P2 three times; P3 and P4 never run.
\<close>

theorem priority_scheduling_example_starves:
  "map_option
     (map_sum id (\<lambda>r. (map prio_process.pid (results r), prio_results.gantt_chart r)))
     (priority_scheduling prio_example) =
   Some (Inr ([''P1'', ''P2'', ''P2'', ''P2''],
              [(''P1'', 0, 5), (''P2'', 5, 8), (''P2'', 8, 11), (''P2'', 11, 14)]))"
  by code_simp

subsection \<open>No scheduler validates its input\<close>


lemma fcfs_loop_gantt:
  "map (\<lambda>g. (fst g, duration g)) (fst (snd (fcfs_loop t ps))) =
     map (\<lambda>p. (fcfs_process.pid p, fcfs_process.burst_time p)) ps"
proof (induction ps arbitrary: t)
  case Nil
  then show ?case by simp
next
  case (Cons p ps)
  obtain p1 seg t1 where b: "fcfs_body t p = (p1, seg, t1)" by (cases "fcfs_body t p") auto
  obtain qs gantt t2 where l: "fcfs_loop t1 ps = (qs, gantt, t2)"
    by (cases "fcfs_loop t1 ps") auto
  from b have seg: "fst seg = fcfs_process.pid p" "duration seg = fcfs_process.burst_time p"
    by (auto simp: fcfs_body_def Let_def duration_def)
  from Cons.IH[of t1] l have "map (\<lambda>g. (fst g, duration g)) gantt =
     map (\<lambda>p. (fcfs_process.pid p, fcfs_process.burst_time p)) ps" by simp
  with b l seg show ?case by simp
qed



subsection \<open>Round Robin: the scans, the queue and its order\<close>

lemma rr_enqueue_frame [simp]:
  "rr_processes (rr_enqueue lo i s) = rr_processes s"
  "rr_time (rr_enqueue lo i s) = rr_time s"
  "rr_gantt (rr_enqueue lo i s) = rr_gantt s"
  "rr_completed (rr_enqueue lo i s) = rr_completed s"
  "length (rr_arrived (rr_enqueue lo i s)) = length (rr_arrived s)"
  by (simp_all add: rr_enqueue_def)

lemma rr_fold_frame [simp]:
  "rr_processes (fold (rr_enqueue lo) xs s) = rr_processes s"
  "rr_time (fold (rr_enqueue lo) xs s) = rr_time s"
  "rr_gantt (fold (rr_enqueue lo) xs s) = rr_gantt s"
  "rr_completed (fold (rr_enqueue lo) xs s) = rr_completed s"
  "length (rr_arrived (fold (rr_enqueue lo) xs s)) = length (rr_arrived s)"
  by (induction xs arbitrary: s) simp_all

lemma rr_due_enqueue_other:
  "j \<noteq> i \<Longrightarrow> rr_due lo (rr_enqueue lo j s) i = rr_due lo s i"
  by (cases lo) (simp_all add: rr_due_def rr_enqueue_def)

lemma rr_fold_queue:
  "distinct xs \<Longrightarrow>
   rr_queue (fold (rr_enqueue lo) xs s) = rr_queue s @ filter (rr_due lo s) xs"
proof (induction xs arbitrary: s)
  case Nil
  then show ?case by simp
next
  case (Cons x xs)
  have "filter (rr_due lo (rr_enqueue lo x s)) xs = filter (rr_due lo s) xs"
  proof (rule filter_cong[OF refl])
    fix y assume "y \<in> set xs"
    with Cons.prems have "x \<noteq> y" by auto
    then show "rr_due lo (rr_enqueue lo x s) y = rr_due lo s y"
      by (rule rr_due_enqueue_other)
  qed
  with Cons show ?case by (simp add: rr_enqueue_def)
qed

lemma rr_fold_arrived:
  "distinct xs \<Longrightarrow> i < length (rr_arrived s) \<Longrightarrow>
   rr_arrived (fold (rr_enqueue lo) xs s) ! i =
     (rr_arrived s ! i \<or> (i \<in> set xs \<and> rr_due lo s i))"
proof (induction xs arbitrary: s)
  case Nil
  then show ?case by simp
next
  case (Cons x xs)
  show ?case
  proof (cases "x = i")
    case True
    then have "i \<notin> set xs" using Cons.prems by auto
    moreover have "rr_arrived (rr_enqueue lo i s) ! i = (rr_arrived s ! i \<or> rr_due lo s i)"
      using Cons.prems by (auto simp: rr_enqueue_def rr_due_def)
    ultimately show ?thesis using Cons True by simp
  next
    case False
    then have "rr_arrived (rr_enqueue lo x s) ! i = rr_arrived s ! i"
      by (simp add: rr_enqueue_def)
    with False Cons show ?thesis by (simp add: rr_due_enqueue_other)
  qed
qed

lemma rr_scan_frame [simp]:
  "rr_processes (rr_scan lo s) = rr_processes s"
  "rr_time (rr_scan lo s) = rr_time s"
  "rr_gantt (rr_scan lo s) = rr_gantt s"
  "rr_completed (rr_scan lo s) = rr_completed s"
  "length (rr_arrived (rr_scan lo s)) = length (rr_arrived s)"
  by (simp_all add: rr_scan_def)

lemma rr_scan_queue:
  "rr_queue (rr_scan lo s) = rr_queue s @ filter (rr_due lo s) [0..<length (rr_processes s)]"
  by (simp add: rr_scan_def rr_fold_queue)

lemma rr_scan_arrived:
  "i < length (rr_arrived s) \<Longrightarrow>
   rr_arrived (rr_scan lo s) ! i =
     (rr_arrived s ! i \<or> (i < length (rr_processes s) \<and> rr_due lo s i))"
  by (simp add: rr_scan_def rr_fold_arrived)

text \<open>The state in which the slice of \<open>current\<close> has been run and the queue is
  \<open>rest\<close>, before the second scan.\<close>
definition rr_slice :: "int \<Rightarrow> nat \<Rightarrow> nat list \<Rightarrow> rr_state \<Rightarrow> rr_state" where
  "rr_slice q current rest s =
     (let p = rr_processes s ! current;
          execute_time = min (remaining p) q
      in s\<lparr>rr_queue := rest, rr_time := rr_time s + execute_time,
           rr_processes := (rr_processes s)[current := p\<lparr>remaining := remaining p - execute_time\<rparr>],
           rr_gantt := rr_gantt s @ [(proc.pid p, rr_time s, rr_time s + execute_time)]\<rparr>)"

lemma rr_body_idle:
  "rr_queue (rr_scan None s0) = [] \<Longrightarrow>
   rr_body q s0 = (rr_scan None s0)\<lparr>rr_time := rr_time s0 + 1\<rparr>"
  by (simp add: rr_body_def Let_def)

lemma rr_body_slice:
  assumes "rr_queue (rr_scan None s0) = current # rest"
  shows "rr_body q s0 =
     (let s = rr_scan None s0;
          s1 = rr_scan (Some (rr_time s0)) (rr_slice q current rest s)
      in if remaining (rr_processes s0 ! current) > q
         then s1\<lparr>rr_queue := rr_queue s1 @ [current]\<rparr>
         else s1\<lparr>rr_processes := (rr_processes s1)
                    [current := finish (rr_time s1)
                       ((rr_processes s0 ! current)\<lparr>remaining := 0\<rparr>)],
                 rr_completed := rr_completed s1 + 1\<rparr>)"
proof -
  let ?p = "rr_processes s0 ! current"
  have a: "(0 < remaining ?p - min (remaining ?p) q) = (q < remaining ?p)"
    by (simp add: min_def)
  have b: "\<not> q < remaining ?p \<Longrightarrow> remaining ?p - min (remaining ?p) q = 0"
    by (simp add: min_def)
  show ?thesis
    using assms a b by (simp add: rr_body_def rr_slice_def Let_def)
qed

lemma rr_scan_wf:
  assumes "rr_wf s"
  shows "rr_wf (rr_scan lo s)"
proof -
  let ?n = "length (rr_processes s)"
  let ?new = "filter (rr_due lo s) [0..<?n]"
  from assms have len: "length (rr_arrived s) = ?n" and dist: "distinct (rr_queue s)"
    and mem: "\<And>i. i \<in> set (rr_queue s) \<Longrightarrow> i < ?n \<and> rr_arrived s ! i"
    unfolding rr_wf_def by auto
  have q: "rr_queue (rr_scan lo s) = rr_queue s @ ?new" by (rule rr_scan_queue)
  have disj: "set (rr_queue s) \<inter> set ?new = {}"
    using mem by (auto simp: rr_due_def)
  have d: "distinct (rr_queue (rr_scan lo s))"
    unfolding q using dist disj by simp
  have m: "i < ?n \<and> rr_arrived (rr_scan lo s) ! i" if "i \<in> set (rr_queue (rr_scan lo s))" for i
  proof -
    from that q have "i \<in> set (rr_queue s) \<or> (i < ?n \<and> rr_due lo s i)" by auto
    then show ?thesis using mem len by (auto simp: rr_scan_arrived)
  qed
  show ?thesis unfolding rr_wf_def using d m len by simp
qed

lemma rr_scan_None_unarrived:
  assumes "length (rr_arrived s) = length (rr_processes s)" "i < length (rr_processes s)"
    "\<not> rr_arrived (rr_scan None s) ! i"
  shows "rr_time s < arrival (rr_processes s ! i)" "\<not> rr_arrived s ! i"
  using assms by (auto simp: rr_scan_arrived rr_due_def)

lemma rr_slice_frame [simp]:
  "rr_queue (rr_slice q current rest s) = rest"
  "rr_arrived (rr_slice q current rest s) = rr_arrived s"
  "rr_completed (rr_slice q current rest s) = rr_completed s"
  "length (rr_processes (rr_slice q current rest s)) = length (rr_processes s)"
  "rr_time (rr_slice q current rest s) = rr_time s + min (remaining (rr_processes s ! current)) q"
  by (simp_all add: rr_slice_def Let_def)

lemma rr_slice_arrival [simp]:
  "i < length (rr_processes s) \<Longrightarrow>
   arrival (rr_processes (rr_slice q current rest s) ! i) = arrival (rr_processes s ! i)"
  by (cases "i = current") (simp_all add: rr_slice_def Let_def)

lemma rr_slice_wf:
  assumes "rr_wf s" "rr_queue s = current # rest"
  shows "rr_wf (rr_slice q current rest s)"
  using assms unfolding rr_wf_def by simp

lemma rr_body_wf:
  assumes "rr_wf s0"
  shows "rr_wf (rr_body q s0)"
proof (cases "rr_queue (rr_scan None s0)")
  case Nil
  from rr_scan_wf[OF assms, of None] show ?thesis
    unfolding rr_body_idle[OF Nil] rr_wf_def by simp
next
  case (Cons current rest)
  let ?s = "rr_scan None s0"
  let ?s1 = "rr_scan (Some (rr_time s0)) (rr_slice q current rest ?s)"
  have wfs: "rr_wf ?s" by (rule rr_scan_wf[OF assms])
  have wf1: "rr_wf ?s1" by (rule rr_scan_wf[OF rr_slice_wf[OF wfs Cons]])
  from wfs Cons have cur: "current < length (rr_processes s0)" "rr_arrived ?s ! current"
    "current \<notin> set rest" "length (rr_arrived s0) = length (rr_processes s0)"
    unfolding rr_wf_def by auto
  have arr1: "rr_arrived ?s1 ! current"
    using cur by (simp add: rr_scan_arrived)
  have notin: "current \<notin> set (rr_queue ?s1)"
    using cur by (auto simp: rr_scan_queue rr_due_def)
  show ?thesis
  proof (cases "q < remaining (rr_processes s0 ! current)")
    case True
    then have "rr_body q s0 = ?s1\<lparr>rr_queue := rr_queue ?s1 @ [current]\<rparr>"
      by (simp add: rr_body_slice[OF Cons] Let_def)
    then show ?thesis using wf1 arr1 notin cur unfolding rr_wf_def by simp
  next
    case False
    then have "rr_body q s0 = ?s1\<lparr>rr_processes := (rr_processes ?s1)
                    [current := finish (rr_time ?s1)
                       ((rr_processes s0 ! current)\<lparr>remaining := 0\<rparr>)],
                 rr_completed := rr_completed ?s1 + 1\<rparr>"
      by (simp add: rr_body_slice[OF Cons] Let_def)
    then show ?thesis using wf1 unfolding rr_wf_def by simp
  qed
qed

lemma rr_init_wf: "rr_wf (rr_init procs)"
  by (simp add: rr_wf_def rr_init_def)

lemma rr_reach_wf: "rr_wf ((rr_body q ^^ n) (rr_init procs))"
  by (induction n) (simp_all add: rr_init_wf rr_body_wf)

lemma rr_body_queue:
  assumes wf: "rr_wf s0" and q: "rr_queue (rr_scan None s0) = current # rest"
  shows "rr_time (rr_body q s0) = rr_time s0 + min (remaining (rr_processes s0 ! current)) q"
    and "rr_queue (rr_body q s0) =
       rest @ filter (\<lambda>i. arrival (rr_processes s0 ! i) \<le> rr_time (rr_body q s0)
                          \<and> \<not> rr_arrived (rr_scan None s0) ! i)
                [0..<length (rr_processes s0)]
            @ (if q < remaining (rr_processes s0 ! current) then [current] else [])"
proof -
  let ?s = "rr_scan None s0"
  let ?sl = "rr_slice q current rest ?s"
  let ?s1 = "rr_scan (Some (rr_time s0)) ?sl"
  let ?t1 = "rr_time s0 + min (remaining (rr_processes s0 ! current)) q"
  from wf have len: "length (rr_arrived s0) = length (rr_processes s0)"
    unfolding rr_wf_def by simp
  show t: "rr_time (rr_body q s0) = ?t1"
    by (simp add: rr_body_slice[OF q] Let_def)
  have f: "filter (rr_due (Some (rr_time s0)) ?sl) [0..<length (rr_processes ?sl)] =
       filter (\<lambda>i. arrival (rr_processes s0 ! i) \<le> ?t1 \<and> \<not> rr_arrived ?s ! i)
         [0..<length (rr_processes s0)]"
  proof -
    have "rr_due (Some (rr_time s0)) ?sl i =
        (arrival (rr_processes s0 ! i) \<le> ?t1 \<and> \<not> rr_arrived ?s ! i)"
      if "i < length (rr_processes s0)" for i
      using that rr_scan_None_unarrived(1)[OF len that]
      by (auto simp: rr_due_def)
    then show ?thesis by (intro filter_cong) simp_all
  qed
  have "rr_queue (rr_body q s0) =
      rr_queue ?s1 @ (if q < remaining (rr_processes s0 ! current) then [current] else [])"
    by (simp add: rr_body_slice[OF q] Let_def)
  also have "rr_queue ?s1 = rest @ filter (rr_due (Some (rr_time s0)) ?sl) [0..<length (rr_processes ?sl)]"
    by (simp add: rr_scan_queue)
  finally show "rr_queue (rr_body q s0) =
       rest @ filter (\<lambda>i. arrival (rr_processes s0 ! i) \<le> rr_time (rr_body q s0)
                          \<and> \<not> rr_arrived (rr_scan None s0) ! i)
                [0..<length (rr_processes s0)]
            @ (if q < remaining (rr_processes s0 ! current) then [current] else [])"
    unfolding f t by simp
qed

lemma rr_dequeued_head:
  "rr_queue s = x # xs \<Longrightarrow> rr_dequeued s = Some x"
  by (simp add: rr_dequeued_def rr_scan_queue)

lemma rr_body_queue_tail:
  assumes "rr_queue s = x # xs"
  shows "\<exists>zs. rr_queue (rr_body q s) = xs @ zs"
proof -
  let ?new = "filter (rr_due None s) [0..<length (rr_processes s)]"
  have q: "rr_queue (rr_scan None s) = x # (xs @ ?new)"
    using assms by (simp add: rr_scan_queue)
  show ?thesis
    by (cases "q < remaining (rr_processes s ! x)")
       (simp_all add: rr_body_slice[OF q] Let_def rr_scan_queue)
qed

lemma rr_fifo:
  assumes "rr_queue s = xs @ j # ys" "current \<notin> set xs" "current \<noteq> j"
    "rr_dequeued ((rr_body q ^^ k) s) = Some current"
  shows "\<exists>k'<k. rr_dequeued ((rr_body q ^^ k') s) = Some j"
  using assms
proof (induction xs arbitrary: s k ys)
  case Nil
  then have h: "rr_dequeued s = Some j" by (simp add: rr_dequeued_head)
  with Nil have "k \<noteq> 0" by (cases k) auto
  with h show ?case by (intro exI[of _ 0]) simp
next
  case (Cons x xs)
  from Cons.prems have h: "rr_dequeued s = Some x" and x: "x \<noteq> current"
    by (auto simp: rr_dequeued_head)
  with Cons.prems obtain k0 where k: "k = Suc k0" by (cases k) auto
  from Cons.prems(1) have "rr_queue s = x # (xs @ j # ys)" by simp
  from rr_body_queue_tail[OF this, of q] obtain zs
    where q': "rr_queue (rr_body q s) = xs @ j # (ys @ zs)" by auto
  have "rr_dequeued ((rr_body q ^^ k0) (rr_body q s)) = Some current"
    using Cons.prems(4) k by (simp add: funpow_swap1)
  from Cons.IH[OF q' _ Cons.prems(3) this] Cons.prems(2)
  obtain k' where "k' < k0" "rr_dequeued ((rr_body q ^^ k') (rr_body q s)) = Some j"
    by auto
  then have "Suc k' < k \<and> rr_dequeued ((rr_body q ^^ Suc k') s) = Some j"
    using k by (simp add: funpow_swap1)
  then show ?case by blast
qed

lemma rr_body_arrived:
  assumes wf: "rr_wf s0" and q: "rr_queue (rr_scan None s0) = current # rest"
    and i: "i < length (rr_processes s0)"
    and a: "arrival (rr_processes s0 ! i) \<le> rr_time (rr_body q s0)"
  shows "rr_arrived (rr_body q s0) ! i"
proof -
  let ?s = "rr_scan None s0"
  let ?sl = "rr_slice q current rest ?s"
  let ?s1 = "rr_scan (Some (rr_time s0)) ?sl"
  from wf have len: "length (rr_arrived s0) = length (rr_processes s0)"
    unfolding rr_wf_def by simp
  have ar: "rr_arrived (rr_body q s0) = rr_arrived ?s1"
    by (cases "q < remaining (rr_processes s0 ! current)")
       (simp_all add: rr_body_slice[OF q] Let_def)
  show ?thesis
  proof (cases "rr_arrived ?s ! i")
    case True
    then show ?thesis unfolding ar using i len by (simp add: rr_scan_arrived[of i ?sl])
  next
    case False
    from rr_scan_None_unarrived(1)[OF len i False] a rr_body_queue(1)[OF wf q, of q] i False
    have "rr_due (Some (rr_time s0)) ?sl i"
      by (simp add: rr_due_def)
    then show ?thesis unfolding ar using i len by (simp add: rr_scan_arrived[of i ?sl])
  qed
qed

lemma lrr_enqueue_frame [simp]:
  "lrr_procs (lrr_enqueue i s) = lrr_procs s"
  "lrr_t (lrr_enqueue i s) = lrr_t s"
  "lrr_gantt_log (lrr_enqueue i s) = lrr_gantt_log s"
  "lrr_count (lrr_enqueue i s) = lrr_count s"
  "lrr_res (lrr_enqueue i s) = lrr_res s"
  "length (lrr_visited (lrr_enqueue i s)) = length (lrr_visited s)"
  by (simp_all add: lrr_enqueue_def)

lemma lrr_fold_frame [simp]:
  "lrr_procs (fold lrr_enqueue xs s) = lrr_procs s"
  "lrr_t (fold lrr_enqueue xs s) = lrr_t s"
  "lrr_gantt_log (fold lrr_enqueue xs s) = lrr_gantt_log s"
  "lrr_count (fold lrr_enqueue xs s) = lrr_count s"
  "lrr_res (fold lrr_enqueue xs s) = lrr_res s"
  "length (lrr_visited (fold lrr_enqueue xs s)) = length (lrr_visited s)"
  by (induction xs arbitrary: s) simp_all

lemma lrr_due_enqueue_other:
  "j \<noteq> i \<Longrightarrow> lrr_due (lrr_enqueue j s) i = lrr_due s i"
  by (simp add: lrr_due_def lrr_enqueue_def)

lemma lrr_fold_queue:
  "distinct xs \<Longrightarrow> lrr_queue (fold lrr_enqueue xs s) = lrr_queue s @ filter (lrr_due s) xs"
proof (induction xs arbitrary: s)
  case Nil
  then show ?case by simp
next
  case (Cons x xs)
  have "filter (lrr_due (lrr_enqueue x s)) xs = filter (lrr_due s) xs"
  proof (rule filter_cong[OF refl])
    fix y assume "y \<in> set xs"
    with Cons.prems have "x \<noteq> y" by auto
    then show "lrr_due (lrr_enqueue x s) y = lrr_due s y"
      by (rule lrr_due_enqueue_other)
  qed
  with Cons show ?case by (simp add: lrr_enqueue_def)
qed

lemma lrr_fold_visited:
  "distinct xs \<Longrightarrow> i < length (lrr_visited s) \<Longrightarrow>
   lrr_visited (fold lrr_enqueue xs s) ! i = (lrr_visited s ! i \<or> (i \<in> set xs \<and> lrr_due s i))"
proof (induction xs arbitrary: s)
  case Nil
  then show ?case by simp
next
  case (Cons x xs)
  show ?case
  proof (cases "x = i")
    case True
    then have "i \<notin> set xs" using Cons.prems by auto
    moreover have "lrr_visited (lrr_enqueue i s) ! i = (lrr_visited s ! i \<or> lrr_due s i)"
      using Cons.prems by (auto simp: lrr_enqueue_def lrr_due_def)
    ultimately show ?thesis using Cons True by simp
  next
    case False
    then have "lrr_visited (lrr_enqueue x s) ! i = lrr_visited s ! i"
      by (simp add: lrr_enqueue_def)
    with False Cons show ?thesis by (simp add: lrr_due_enqueue_other)
  qed
qed

lemma lrr_scan_frame [simp]:
  "lrr_procs (lrr_scan s) = lrr_procs s"
  "lrr_t (lrr_scan s) = lrr_t s"
  "lrr_gantt_log (lrr_scan s) = lrr_gantt_log s"
  "lrr_count (lrr_scan s) = lrr_count s"
  "lrr_res (lrr_scan s) = lrr_res s"
  "length (lrr_visited (lrr_scan s)) = length (lrr_visited s)"
  by (simp_all add: lrr_scan_def)

lemma lrr_scan_queue:
  "lrr_queue (lrr_scan s) = lrr_queue s @ filter (lrr_due s) [0..<length (lrr_procs s)]"
  by (simp add: lrr_scan_def lrr_fold_queue)

lemma lrr_scan_visited:
  "i < length (lrr_visited s) \<Longrightarrow>
   lrr_visited (lrr_scan s) ! i =
     (lrr_visited s ! i \<or> (i < length (lrr_procs s) \<and> lrr_due s i))"
  by (simp add: lrr_scan_def lrr_fold_visited)

lemma lrr_scan_wf:
  assumes "lrr_wf s"
  shows "lrr_wf (lrr_scan s)"
proof -
  let ?n = "length (lrr_procs s)"
  let ?new = "filter (lrr_due s) [0..<?n]"
  from assms have len: "length (lrr_visited s) = ?n" and dist: "distinct (lrr_queue s)"
    and mem: "\<And>i. i \<in> set (lrr_queue s) \<Longrightarrow> i < ?n \<and> lrr_visited s ! i"
    unfolding lrr_wf_def by auto
  have q: "lrr_queue (lrr_scan s) = lrr_queue s @ ?new" by (rule lrr_scan_queue)
  have disj: "set (lrr_queue s) \<inter> set ?new = {}"
    using mem by (auto simp: lrr_due_def)
  have d: "distinct (lrr_queue (lrr_scan s))"
    unfolding q using dist disj by simp
  have m: "i < ?n \<and> lrr_visited (lrr_scan s) ! i" if "i \<in> set (lrr_queue (lrr_scan s))" for i
  proof -
    from that q have "i \<in> set (lrr_queue s) \<or> (i < ?n \<and> lrr_due s i)" by auto
    then show ?thesis using mem len by (auto simp: lrr_scan_visited)
  qed
  show ?thesis unfolding lrr_wf_def using d m len by simp
qed

lemma lrr_slice_frame [simp]:
  "lrr_queue (lrr_slice q cur rest s) = rest"
  "lrr_visited (lrr_slice q cur rest s) = lrr_visited s"
  "lrr_count (lrr_slice q cur rest s) = lrr_count s"
  "lrr_res (lrr_slice q cur rest s) = lrr_res s"
  "length (lrr_procs (lrr_slice q cur rest s)) = length (lrr_procs s)"
  "lrr_t (lrr_slice q cur rest s) = lrr_t s + min (Process.remaining_time (lrr_procs s ! cur)) q"
  by (simp_all add: lrr_slice_def Let_def)

lemma lrr_slice_arrival [simp]:
  "i < length (lrr_procs s) \<Longrightarrow>
   Process.arrival_time (lrr_procs (lrr_slice q cur rest s) ! i) = Process.arrival_time (lrr_procs s ! i)"
  by (cases "i = cur") (simp_all add: lrr_slice_def Let_def)

lemma lrr_body_idle:
  "lrr_queue s = [] \<Longrightarrow> lrr_body q s = lrr_scan (s\<lparr>lrr_t := lrr_t s + 1\<rparr>)"
  by (simp add: lrr_body_def)

lemma lrr_body_slice:
  assumes "lrr_queue s = cur # rest"
  shows "lrr_body q s =
     (let s1 = lrr_scan (lrr_slice q cur rest s)
      in if Process.remaining_time (lrr_procs s ! cur) > q
         then s1\<lparr>lrr_queue := lrr_queue s1 @ [cur]\<rparr>
         else s1\<lparr>lrr_procs := (lrr_procs s1)
                    [cur := (lrr_procs s ! cur)
                       \<lparr>Process.remaining_time := 0, Process.completion_time := lrr_t s1,
                        Process.turnaround_time :=
                          lrr_t s1 - Process.arrival_time (lrr_procs s ! cur),
                        Process.waiting_time :=
                          lrr_t s1 - Process.arrival_time (lrr_procs s ! cur)
                            - Process.burst_time (lrr_procs s ! cur)\<rparr>],
                 lrr_count := lrr_count s1 + 1,
                 lrr_res := lrr_res s1 @ [cur]\<rparr>)"
proof -
  let ?p = "lrr_procs s ! cur"
  have a: "(0 < Process.remaining_time ?p - min (Process.remaining_time ?p) q)
             = (q < Process.remaining_time ?p)"
    by (simp add: min_def)
  have b: "\<not> q < Process.remaining_time ?p \<Longrightarrow>
             Process.remaining_time ?p - min (Process.remaining_time ?p) q = 0"
    by (simp add: min_def)
  show ?thesis
    using assms a b by (simp add: lrr_body_def lrr_slice_def Let_def)
qed

lemma lrr_body_wf:
  assumes "lrr_wf s"
  shows "lrr_wf (lrr_body q s)"
proof (cases "lrr_queue s")
  case Nil
  have "lrr_wf (s\<lparr>lrr_t := lrr_t s + 1\<rparr>)" using assms unfolding lrr_wf_def by simp
  from lrr_scan_wf[OF this] show ?thesis unfolding lrr_body_idle[OF Nil] .
next
  case (Cons cur rest)
  let ?s1 = "lrr_scan (lrr_slice q cur rest s)"
  have "lrr_wf (lrr_slice q cur rest s)" using assms Cons unfolding lrr_wf_def by simp
  then have wf1: "lrr_wf ?s1" by (rule lrr_scan_wf)
  from assms Cons have cur: "cur < length (lrr_procs s)" "lrr_visited s ! cur"
    "cur \<notin> set rest" "length (lrr_visited s) = length (lrr_procs s)"
    unfolding lrr_wf_def by auto
  have vis1: "lrr_visited ?s1 ! cur" using cur by (simp add: lrr_scan_visited)
  have notin: "cur \<notin> set (lrr_queue ?s1)"
    using cur by (auto simp: lrr_scan_queue lrr_due_def)
  show ?thesis
  proof (cases "q < Process.remaining_time (lrr_procs s ! cur)")
    case True
    then have "lrr_body q s = ?s1\<lparr>lrr_queue := lrr_queue ?s1 @ [cur]\<rparr>"
      by (simp add: lrr_body_slice[OF Cons] Let_def)
    then show ?thesis using wf1 vis1 notin cur unfolding lrr_wf_def by simp
  next
    case False
    then show ?thesis using wf1 unfolding lrr_wf_def
      by (simp add: lrr_body_slice[OF Cons] Let_def)
  qed
qed

lemma lrr_init_wf: "procs \<noteq> [] \<Longrightarrow> lrr_wf (lrr_init procs)"
  by (simp add: lrr_wf_def lrr_init_def)

lemma lrr_reach_wf: "procs \<noteq> [] \<Longrightarrow> lrr_wf ((lrr_body q ^^ n) (lrr_init procs))"
  by (induction n) (simp_all add: lrr_init_wf lrr_body_wf)

lemma lrr_body_queue:
  assumes q: "lrr_queue s = cur # rest"
  shows "lrr_t (lrr_body q s) = lrr_t s + min (Process.remaining_time (lrr_procs s ! cur)) q"
    and "lrr_queue (lrr_body q s) =
       rest @ filter (\<lambda>i. Process.arrival_time (lrr_procs s ! i) \<le> lrr_t (lrr_body q s)
                          \<and> \<not> lrr_visited s ! i)
                [0..<length (lrr_procs s)]
            @ (if q < Process.remaining_time (lrr_procs s ! cur) then [cur] else [])"
proof -
  let ?sl = "lrr_slice q cur rest s"
  let ?s1 = "lrr_scan ?sl"
  let ?t1 = "lrr_t s + min (Process.remaining_time (lrr_procs s ! cur)) q"
  show t: "lrr_t (lrr_body q s) = ?t1"
    by (simp add: lrr_body_slice[OF q] Let_def)
  have f: "filter (lrr_due ?sl) [0..<length (lrr_procs ?sl)] =
       filter (\<lambda>i. Process.arrival_time (lrr_procs s ! i) \<le> ?t1 \<and> \<not> lrr_visited s ! i)
         [0..<length (lrr_procs s)]"
    by (intro filter_cong) (simp_all add: lrr_due_def)
  have "lrr_queue (lrr_body q s) =
      lrr_queue ?s1 @ (if q < Process.remaining_time (lrr_procs s ! cur) then [cur] else [])"
    by (simp add: lrr_body_slice[OF q] Let_def)
  also have "lrr_queue ?s1 = rest @ filter (lrr_due ?sl) [0..<length (lrr_procs ?sl)]"
    by (simp add: lrr_scan_queue)
  finally show "lrr_queue (lrr_body q s) =
       rest @ filter (\<lambda>i. Process.arrival_time (lrr_procs s ! i) \<le> lrr_t (lrr_body q s)
                          \<and> \<not> lrr_visited s ! i)
                [0..<length (lrr_procs s)]
            @ (if q < Process.remaining_time (lrr_procs s ! cur) then [cur] else [])"
    unfolding f t by simp
qed

lemma lrr_body_queue_tail:
  assumes "lrr_queue s = x # xs"
  shows "\<exists>zs. lrr_queue (lrr_body q s) = xs @ zs"
  using lrr_body_queue(2)[OF assms, of q] by blast

lemma lrr_fifo:
  assumes "lrr_queue s = xs @ j # ys" "cur \<notin> set xs" "cur \<noteq> j"
    "lrr_dequeued ((lrr_body q ^^ k) s) = Some cur"
  shows "\<exists>k'<k. lrr_dequeued ((lrr_body q ^^ k') s) = Some j"
  using assms
proof (induction xs arbitrary: s k ys)
  case Nil
  then have h: "lrr_dequeued s = Some j" by (simp add: lrr_dequeued_def)
  with Nil have "k \<noteq> 0" by (cases k) auto
  with h show ?case by (intro exI[of _ 0]) simp
next
  case (Cons x xs)
  from Cons.prems have h: "lrr_dequeued s = Some x" and x: "x \<noteq> cur"
    by (auto simp: lrr_dequeued_def)
  with Cons.prems obtain k0 where k: "k = Suc k0" by (cases k) auto
  from Cons.prems(1) have "lrr_queue s = x # (xs @ j # ys)" by simp
  from lrr_body_queue_tail[OF this, of q] obtain zs
    where q': "lrr_queue (lrr_body q s) = xs @ j # (ys @ zs)" by auto
  have "lrr_dequeued ((lrr_body q ^^ k0) (lrr_body q s)) = Some cur"
    using Cons.prems(4) k by (simp add: funpow_swap1)
  from Cons.IH[OF q' _ Cons.prems(3) this] Cons.prems(2)
  obtain k' where "k' < k0" "lrr_dequeued ((lrr_body q ^^ k') (lrr_body q s)) = Some j"
    by auto
  then have "Suc k' < k \<and> lrr_dequeued ((lrr_body q ^^ Suc k') s) = Some j"
    using k by (simp add: funpow_swap1)
  then show ?case by blast
qed

lemma lrr_body_visited:
  assumes wf: "lrr_wf s" and q: "lrr_queue s = cur # rest"
    and i: "i < length (lrr_procs s)"
    and a: "Process.arrival_time (lrr_procs s ! i) \<le> lrr_t (lrr_body q s)"
  shows "lrr_visited (lrr_body q s) ! i"
proof -
  let ?sl = "lrr_slice q cur rest s"
  from wf have len: "length (lrr_visited s) = length (lrr_procs s)"
    unfolding lrr_wf_def by simp
  have ar: "lrr_visited (lrr_body q s) = lrr_visited (lrr_scan ?sl)"
    by (cases "q < Process.remaining_time (lrr_procs s ! cur)")
       (simp_all add: lrr_body_slice[OF q] Let_def)
  from a lrr_body_queue(1)[OF q, of q] i
  have "lrr_visited s ! i \<or> lrr_due ?sl i" by (auto simp: lrr_due_def)
  then show ?thesis unfolding ar using i len by (auto simp: lrr_scan_visited[of i ?sl])
qed

lemma map_update_same:
  "f y = f (xs ! c) \<Longrightarrow> map f (xs[c := y]) = map f xs"
  by (cases "c < length xs") (simp_all add: map_update list_update_same_conv list_update_beyond)

lemma rr_body_arrivals: "map arrival (rr_processes (rr_body q s)) = map arrival (rr_processes s)"
proof (cases "rr_queue (rr_scan None s)")
  case Nil
  then show ?thesis by (simp add: rr_body_idle)
next
  case (Cons current rest)
  have sl: "map arrival (rr_processes (rr_slice q current rest (rr_scan None s))) = map arrival (rr_processes s)"
    by (simp add: rr_slice_def Let_def map_update_same)
  show ?thesis
  proof (cases "q < remaining (rr_processes s ! current)")
    case True
    then show ?thesis using sl by (simp add: rr_body_slice[OF Cons] Let_def)
  next
    case False
    have "arrival (finish t ((rr_processes s ! current)\<lparr>remaining := 0\<rparr>))
       = arrival (rr_processes (rr_slice q current rest (rr_scan None s)) ! current)" for t
      by (cases "current < length (rr_processes s)")
         (simp_all add: finish_def Let_def rr_slice_def list_update_beyond)
    then show ?thesis using sl False
      by (simp add: rr_body_slice[OF Cons] Let_def map_update_same)
  qed
qed

lemma rr_reach_arrivals:
  "map arrival (rr_processes ((rr_body q ^^ n) (rr_init procs))) = map arrival (sort_key arrival procs)"
  by (induction n) (simp_all add: rr_body_arrivals rr_init_def)

lemma lrr_body_arrivals:
  "map Process.arrival_time (lrr_procs (lrr_body q s)) = map Process.arrival_time (lrr_procs s)"
proof (cases "lrr_queue s")
  case Nil
  then show ?thesis by (simp add: lrr_body_idle)
next
  case (Cons cur rest)
  have sl: "map Process.arrival_time (lrr_procs (lrr_slice q cur rest s)) = map Process.arrival_time (lrr_procs s)"
    by (simp add: lrr_slice_def Let_def map_update_same)
  show ?thesis
  proof (cases "q < Process.remaining_time (lrr_procs s ! cur)")
    case True
    then show ?thesis using sl by (simp add: lrr_body_slice[OF Cons] Let_def)
  next
    case False
    have "Process.arrival_time (lrr_procs s ! cur)
       = Process.arrival_time (lrr_procs (lrr_slice q cur rest s) ! cur)"
      by (cases "cur < length (lrr_procs s)")
         (simp_all add: lrr_slice_def Let_def list_update_beyond)
    then show ?thesis using sl False
      by (simp add: lrr_body_slice[OF Cons] Let_def map_update_same)
  qed
qed

lemma lrr_reach_arrivals:
  "map Process.arrival_time (lrr_procs ((lrr_body q ^^ n) (lrr_init procs))) = map Process.arrival_time procs"
  by (induction n) (simp_all add: lrr_body_arrivals lrr_init_def)

lemma sorted_positions:
  assumes "sorted (map f ps)"
  shows "sorted (map (\<lambda>i. f (ps ! i)) (filter P [0..<length ps]))"
proof -
  have "sorted_wrt (\<lambda>i j. f (ps ! i) \<le> f (ps ! j)) [0..<length ps]"
  proof (rule sorted_wrt_mono_rel[of _ "(<)"])
    fix i j assume "i \<in> set [0..<length ps]" "j \<in> set [0..<length ps]" "i < j"
    then show "f (ps ! i) \<le> f (ps ! j)"
      using assms sorted_nth_mono[of "map f ps" i j] by simp
  qed simp
  then have "sorted_wrt (\<lambda>i j. f (ps ! i) \<le> f (ps ! j)) (filter P [0..<length ps])"
    by (rule sorted_wrt_filter)
  then show ?thesis by (simp add: sorted_wrt_map)
qed

lemma rr_new_arrivals_first:
  assumes s: "s = (rr_body q ^^ n) (rr_init procs)"
    and q: "rr_queue (rr_scan None s) = current # rest"
  defines "new \<equiv> rr_new_arrivals (rr_scan None s) (rr_time (rr_body q s))"
  shows "rr_queue (rr_body q s) =
           rest @ new @ (if q < remaining (rr_processes s ! current) then [current] else [])"
    and "sorted (map (\<lambda>i. arrival (rr_processes s ! i)) new)"
    and "\<forall>i<length (rr_processes s).
           arrival (rr_processes s ! i) \<le> rr_time (rr_body q s) \<longrightarrow> rr_arrived (rr_body q s) ! i"
    and "\<forall>j k. j \<in> set new \<and> rr_dequeued ((rr_body q ^^ k) (rr_body q s)) = Some current
           \<longrightarrow> (\<exists>k'<k. rr_dequeued ((rr_body q ^^ k') (rr_body q s)) = Some j)"
proof -
  have wf: "rr_wf s" unfolding s by (rule rr_reach_wf)
  have wfs: "rr_wf (rr_scan None s)" by (rule rr_scan_wf[OF wf])
  show shape: "rr_queue (rr_body q s) =
           rest @ new @ (if q < remaining (rr_processes s ! current) then [current] else [])"
    unfolding new_def rr_new_arrivals_def using rr_body_queue(2)[OF wf q, of q] by simp
  have "sorted (map arrival (rr_processes s))"
    unfolding s rr_reach_arrivals by simp
  from sorted_positions[OF this]
  show "sorted (map (\<lambda>i. arrival (rr_processes s ! i)) new)"
    unfolding new_def rr_new_arrivals_def by simp
  show "\<forall>i<length (rr_processes s).
           arrival (rr_processes s ! i) \<le> rr_time (rr_body q s) \<longrightarrow> rr_arrived (rr_body q s) ! i"
    using rr_body_arrived[OF wf q] by blast
  from wfs q have cur: "current \<notin> set rest" "rr_arrived (rr_scan None s) ! current"
    unfolding rr_wf_def by auto
  then have cur_new: "current \<notin> set new"
    unfolding new_def rr_new_arrivals_def by auto
  show "\<forall>j k. j \<in> set new \<and> rr_dequeued ((rr_body q ^^ k) (rr_body q s)) = Some current
           \<longrightarrow> (\<exists>k'<k. rr_dequeued ((rr_body q ^^ k') (rr_body q s)) = Some j)"
  proof (intro allI impI, elim conjE)
    fix j k
    assume j: "j \<in> set new"
      and d: "rr_dequeued ((rr_body q ^^ k) (rr_body q s)) = Some current"
    from j obtain n1 n2 where new: "new = n1 @ j # n2" by (auto simp: in_set_conv_decomp)
    have 1: "rr_queue (rr_body q s) =
        (rest @ n1) @ j # (n2 @ (if q < remaining (rr_processes s ! current) then [current] else []))"
      unfolding shape new by simp
    have 2: "current \<notin> set (rest @ n1)" using cur cur_new new by auto
    have 3: "current \<noteq> j" using cur_new j by auto
    from rr_fifo[OF 1 2 3 d]
    show "\<exists>k'<k. rr_dequeued ((rr_body q ^^ k') (rr_body q s)) = Some j" .
  qed
qed

lemma lrr_new_arrivals_first:
  assumes ne: "procs \<noteq> []"
    and s: "s = (lrr_body q ^^ n) (lrr_init (sort_key Process.arrival_time procs))"
    and q: "lrr_queue s = cur # rest"
  defines "new \<equiv> lrr_new_arrivals s (lrr_t (lrr_body q s))"
  shows "lrr_queue (lrr_body q s) =
           rest @ new @ (if q < Process.remaining_time (lrr_procs s ! cur) then [cur] else [])"
    and "sorted (map (\<lambda>i. Process.arrival_time (lrr_procs s ! i)) new)"
    and "\<forall>i<length (lrr_procs s).
           Process.arrival_time (lrr_procs s ! i) \<le> lrr_t (lrr_body q s)
             \<longrightarrow> lrr_visited (lrr_body q s) ! i"
    and "\<forall>j k. j \<in> set new \<and> lrr_dequeued ((lrr_body q ^^ k) (lrr_body q s)) = Some cur
           \<longrightarrow> (\<exists>k'<k. lrr_dequeued ((lrr_body q ^^ k') (lrr_body q s)) = Some j)"
proof -
  from ne have ne': "sort_key Process.arrival_time procs \<noteq> []"
    by (metis length_0_conv length_sort)
  have wf: "lrr_wf s" unfolding s by (rule lrr_reach_wf[OF ne'])
  show shape: "lrr_queue (lrr_body q s) =
           rest @ new @ (if q < Process.remaining_time (lrr_procs s ! cur) then [cur] else [])"
    unfolding new_def lrr_new_arrivals_def using lrr_body_queue(2)[OF q, of q] by simp
  have "sorted (map Process.arrival_time (lrr_procs s))"
    unfolding s lrr_reach_arrivals by simp
  from sorted_positions[OF this]
  show "sorted (map (\<lambda>i. Process.arrival_time (lrr_procs s ! i)) new)"
    unfolding new_def lrr_new_arrivals_def by simp
  show "\<forall>i<length (lrr_procs s).
           Process.arrival_time (lrr_procs s ! i) \<le> lrr_t (lrr_body q s)
             \<longrightarrow> lrr_visited (lrr_body q s) ! i"
    using lrr_body_visited[OF wf q] by blast
  from wf q have cur: "cur \<notin> set rest" "lrr_visited s ! cur"
    unfolding lrr_wf_def by auto
  then have cur_new: "cur \<notin> set new"
    unfolding new_def lrr_new_arrivals_def by auto
  show "\<forall>j k. j \<in> set new \<and> lrr_dequeued ((lrr_body q ^^ k) (lrr_body q s)) = Some cur
           \<longrightarrow> (\<exists>k'<k. lrr_dequeued ((lrr_body q ^^ k') (lrr_body q s)) = Some j)"
  proof (intro allI impI, elim conjE)
    fix j k
    assume j: "j \<in> set new"
      and d: "lrr_dequeued ((lrr_body q ^^ k) (lrr_body q s)) = Some cur"
    from j obtain n1 n2 where new: "new = n1 @ j # n2" by (auto simp: in_set_conv_decomp)
    have 1: "lrr_queue (lrr_body q s) =
        (rest @ n1) @ j # (n2 @ (if q < Process.remaining_time (lrr_procs s ! cur) then [cur] else []))"
      unfolding shape new by simp
    have 2: "cur \<notin> set (rest @ n1)" using cur cur_new new by auto
    have 3: "cur \<noteq> j" using cur_new j by auto
    from lrr_fifo[OF 1 2 3 d]
    show "\<exists>k'<k. lrr_dequeued ((lrr_body q ^^ k') (lrr_body q s)) = Some j" .
  qed
qed

text \<open>
  Claim C3.  Take any state \<open>s\<close> of a run of \<^verbatim>\<open>round_robin\<close> (any number \<open>n\<close> of
  iterations from the initial state) whose iteration takes \<open>current\<close> from the queue and
  leaves \<open>rest\<close>.  After the iteration the queue is \<open>rest\<close>, then every process not yet
  enqueued whose arrival time is at most the new clock value, in list order, which is
  arrival order, then \<open>current\<close> when it has work left (its remaining time exceeded the
  quantum).  Every process that has arrived by the new clock value is flagged.  And every
  such new arrival is taken from the queue in an earlier iteration than the next one that
  takes \<open>current\<close>.  The same holds for \<^verbatim>\<open>logic_rr\<close>.
\<close>

theorem round_robin_new_arrivals_before_returning:
  "(s = (rr_body q ^^ n) (rr_init procs) \<and> rr_queue (rr_scan None s) = current # rest \<longrightarrow>
      rr_queue (rr_body q s) =
        rest @ rr_new_arrivals (rr_scan None s) (rr_time (rr_body q s))
             @ (if q < remaining (rr_processes s ! current) then [current] else [])
      \<and> sorted (map (\<lambda>i. arrival (rr_processes s ! i))
                 (rr_new_arrivals (rr_scan None s) (rr_time (rr_body q s))))
      \<and> (\<forall>i<length (rr_processes s).
             arrival (rr_processes s ! i) \<le> rr_time (rr_body q s)
               \<longrightarrow> rr_arrived (rr_body q s) ! i)
      \<and> (\<forall>j k. j \<in> set (rr_new_arrivals (rr_scan None s) (rr_time (rr_body q s)))
                 \<and> rr_dequeued ((rr_body q ^^ k) (rr_body q s)) = Some current
             \<longrightarrow> (\<exists>k'<k. rr_dequeued ((rr_body q ^^ k') (rr_body q s)) = Some j)))
   \<and> (Procs \<noteq> [] \<and> S = (lrr_body Q ^^ N) (lrr_init (sort_key Process.arrival_time Procs))
        \<and> lrr_queue S = cur # Rest \<longrightarrow>
      lrr_queue (lrr_body Q S) =
        Rest @ lrr_new_arrivals S (lrr_t (lrr_body Q S))
             @ (if Q < Process.remaining_time (lrr_procs S ! cur) then [cur] else [])
      \<and> sorted (map (\<lambda>i. Process.arrival_time (lrr_procs S ! i))
                 (lrr_new_arrivals S (lrr_t (lrr_body Q S))))
      \<and> (\<forall>i<length (lrr_procs S).
             Process.arrival_time (lrr_procs S ! i) \<le> lrr_t (lrr_body Q S)
               \<longrightarrow> lrr_visited (lrr_body Q S) ! i)
      \<and> (\<forall>j k. j \<in> set (lrr_new_arrivals S (lrr_t (lrr_body Q S)))
                 \<and> lrr_dequeued ((lrr_body Q ^^ k) (lrr_body Q S)) = Some cur
             \<longrightarrow> (\<exists>k'<k. lrr_dequeued ((lrr_body Q ^^ k') (lrr_body Q S)) = Some j)))"
proof (intro conjI impI; elim conjE)
  assume a: "s = (rr_body q ^^ n) (rr_init procs)" "rr_queue (rr_scan None s) = current # rest"
  note r = rr_new_arrivals_first[OF a]
  show "rr_queue (rr_body q s) =
        rest @ rr_new_arrivals (rr_scan None s) (rr_time (rr_body q s))
             @ (if q < remaining (rr_processes s ! current) then [current] else [])"
    by (rule r(1))
  show "sorted (map (\<lambda>i. arrival (rr_processes s ! i))
                 (rr_new_arrivals (rr_scan None s) (rr_time (rr_body q s))))"
    by (rule r(2))
  show "\<forall>i<length (rr_processes s).
             arrival (rr_processes s ! i) \<le> rr_time (rr_body q s)
               \<longrightarrow> rr_arrived (rr_body q s) ! i"
    by (rule r(3))
  show "\<forall>j k. j \<in> set (rr_new_arrivals (rr_scan None s) (rr_time (rr_body q s)))
                 \<and> rr_dequeued ((rr_body q ^^ k) (rr_body q s)) = Some current
             \<longrightarrow> (\<exists>k'<k. rr_dequeued ((rr_body q ^^ k') (rr_body q s)) = Some j)"
    by (rule r(4))
next
  assume a: "Procs \<noteq> []" "S = (lrr_body Q ^^ N) (lrr_init (sort_key Process.arrival_time Procs))"
    "lrr_queue S = cur # Rest"
  note r = lrr_new_arrivals_first[OF a]
  show "lrr_queue (lrr_body Q S) =
        Rest @ lrr_new_arrivals S (lrr_t (lrr_body Q S))
             @ (if Q < Process.remaining_time (lrr_procs S ! cur) then [cur] else [])"
    by (rule r(1))
  show "sorted (map (\<lambda>i. Process.arrival_time (lrr_procs S ! i))
                 (lrr_new_arrivals S (lrr_t (lrr_body Q S))))"
    by (rule r(2))
  show "\<forall>i<length (lrr_procs S).
             Process.arrival_time (lrr_procs S ! i) \<le> lrr_t (lrr_body Q S)
               \<longrightarrow> lrr_visited (lrr_body Q S) ! i"
    by (rule r(3))
  show "\<forall>j k. j \<in> set (lrr_new_arrivals S (lrr_t (lrr_body Q S)))
                 \<and> lrr_dequeued ((lrr_body Q ^^ k) (lrr_body Q S)) = Some cur
             \<longrightarrow> (\<exists>k'<k. lrr_dequeued ((lrr_body Q ^^ k') (lrr_body Q S)) = Some j)"
    by (rule r(4))
qed

text \<open>The theorem at the first iteration on the sample processes with quantum 3: P1
  runs from 0 to 3, P2 and P3 arrive meanwhile, the queue becomes P2, P3, P1.\<close>

theorem round_robin_new_arrivals_before_returning_witness:
  "rr_queue (rr_scan None (rr_init rr_example)) = [0]
   \<and> rr_new_arrivals (rr_scan None (rr_init rr_example))
         (rr_time (rr_body 3 (rr_init rr_example))) = [1, 2]
   \<and> rr_queue (rr_body 3 (rr_init rr_example)) = [1, 2, 0]
   \<and> gui_example \<noteq> []
   \<and> lrr_queue (lrr_init (sort_key Process.arrival_time gui_example)) = [0]
   \<and> lrr_new_arrivals (lrr_init (sort_key Process.arrival_time gui_example))
         (lrr_t (lrr_body 3 (lrr_init (sort_key Process.arrival_time gui_example)))) = [1, 2]
   \<and> lrr_queue (lrr_body 3 (lrr_init (sort_key Process.arrival_time gui_example))) = [1, 2, 0]"
proof -
  let ?s = "rr_init rr_example"
  let ?S = "lrr_init (sort_key Process.arrival_time gui_example)"
  have a: "rr_queue (rr_scan None ?s) = [0]" by code_simp
  have b: "rr_new_arrivals (rr_scan None ?s) (rr_time (rr_body 3 ?s)) = [1, 2]" by code_simp
  have d: "gui_example \<noteq> []" by (simp add: gui_example_def)
  have e: "lrr_queue ?S = [0]" by code_simp
  have f: "lrr_new_arrivals ?S (lrr_t (lrr_body 3 ?S)) = [1, 2]" by code_simp
  have g: "3 < Process.remaining_time (lrr_procs ?S ! 0)" by code_simp
  have h: "3 < remaining (rr_processes ?s ! 0)" by code_simp
  from round_robin_new_arrivals_before_returning
         [where s = ?s and q = 3 and n = 0 and procs = rr_example and current = 0
            and rest = "[]" and Procs = gui_example and S = ?S and Q = 3 and N = 0
            and cur = 0 and Rest = "[]"]
       a b d e f g h
  show ?thesis by simp
qed

subsection \<open>Round Robin: the loop invariant\<close>

lemma rr_done_finite [simp]: "finite (rr_done s)"
  unfolding rr_done_def by simp

lemma rr_scan_done:
  assumes "rr_wf s"
  shows "rr_done (rr_scan lo s) = rr_done s"
proof -
  from assms have len: "length (rr_arrived s) = length (rr_processes s)"
    unfolding rr_wf_def by simp
  have "(i \<in> rr_done (rr_scan lo s)) = (i \<in> rr_done s)" for i
  proof (cases "i < length (rr_processes s)")
    case True
    have "rr_due lo s i \<Longrightarrow> \<not> rr_arrived s ! i" by (simp add: rr_due_def)
    with True len show ?thesis
      by (auto simp: rr_done_def rr_scan_arrived rr_scan_queue)
  next
    case False
    then show ?thesis by (simp add: rr_done_def)
  qed
  then show ?thesis by blast
qed

lemma rr_slice_done:
  assumes "rr_wf s" "rr_queue s = current # rest"
  shows "rr_done (rr_slice q current rest s) = insert current (rr_done s)"
  using assms unfolding rr_wf_def rr_done_def by auto

lemma rr_slice_processes:
  "rr_processes (rr_slice q current rest s) =
     (rr_processes s)[current := (rr_processes s ! current)
        \<lparr>remaining := remaining (rr_processes s ! current)
                        - min (remaining (rr_processes s ! current)) q\<rparr>]"
  by (simp add: rr_slice_def Let_def)

text \<open>The two outcomes of an iteration that runs a slice, field by field.\<close>

lemma rr_body_requeue:
  assumes q: "rr_queue (rr_scan None s) = current # rest"
    and r: "q < remaining (rr_processes s ! current)"
  shows "rr_processes (rr_body q s) =
           (rr_processes s)[current := (rr_processes s ! current)
              \<lparr>remaining := remaining (rr_processes s ! current) - q\<rparr>]"
    and "rr_completed (rr_body q s) = rr_completed s"
    and "rr_time (rr_body q s) = rr_time s + q"
    and "rr_gantt (rr_body q s) =
           rr_gantt s @ [(proc.pid (rr_processes s ! current), rr_time s, rr_time s + q)]"
  using r by (simp_all add: rr_body_slice[OF q] Let_def rr_slice_def min_def)

lemma rr_body_complete:
  assumes q: "rr_queue (rr_scan None s) = current # rest"
    and r: "\<not> q < remaining (rr_processes s ! current)"
  shows "rr_processes (rr_body q s) =
           (rr_processes s)[current :=
              finish (rr_time s + remaining (rr_processes s ! current))
                ((rr_processes s ! current)\<lparr>remaining := 0\<rparr>)]"
    and "rr_completed (rr_body q s) = rr_completed s + 1"
    and "rr_time (rr_body q s) = rr_time s + remaining (rr_processes s ! current)"
    and "rr_gantt (rr_body q s) =
           rr_gantt s @ [(proc.pid (rr_processes s ! current), rr_time s,
                          rr_time s + remaining (rr_processes s ! current))]"
  using r by (simp_all add: rr_body_slice[OF q] Let_def rr_slice_def min_def)

lemma rr_body_done:
  assumes wf: "rr_wf s" and q: "rr_queue (rr_scan None s) = current # rest"
  shows "rr_done (rr_body q s) =
           (if q < remaining (rr_processes s ! current) then rr_done s
            else insert current (rr_done s))"
    and "current \<notin> rr_done s" and "current < length (rr_processes s)"
proof -
  let ?s = "rr_scan None s"
  let ?s1 = "rr_scan (Some (rr_time s)) (rr_slice q current rest ?s)"
  have wfs: "rr_wf ?s" by (rule rr_scan_wf[OF wf])
  have d1: "rr_done ?s1 = insert current (rr_done s)"
    using rr_scan_done[OF rr_slice_wf[OF wfs q]] rr_slice_done[OF wfs q] rr_scan_done[OF wf]
    by simp
  have "current \<notin> rr_done ?s" using q by (simp add: rr_done_def)
  then show c: "current \<notin> rr_done s" by (simp add: rr_scan_done[OF wf])
  from wfs q show "current < length (rr_processes s)" unfolding rr_wf_def by simp
  show "rr_done (rr_body q s) =
           (if q < remaining (rr_processes s ! current) then rr_done s
            else insert current (rr_done s))"
  proof (cases "q < remaining (rr_processes s ! current)")
    case True
    then have "rr_body q s = ?s1\<lparr>rr_queue := rr_queue ?s1 @ [current]\<rparr>"
      by (simp add: rr_body_slice[OF q] Let_def)
    then have "rr_done (rr_body q s) = rr_done ?s1 - {current}"
      by (auto simp: rr_done_def)
    with d1 c True show ?thesis by simp
  next
    case False
    then have "rr_done (rr_body q s) = rr_done ?s1"
      by (simp add: rr_body_slice[OF q] Let_def rr_done_def)
    with d1 False show ?thesis by simp
  qed
qed

lemma rr_body_idle_done:
  assumes wf: "rr_wf s" and q: "rr_queue (rr_scan None s) = []"
  shows "rr_done (rr_body q s) = rr_done s"
proof -
  have "rr_done (rr_body q s) = rr_done (rr_scan None s)"
    by (simp add: rr_body_idle[OF q] rr_done_def)
  then show ?thesis by (simp add: rr_scan_done[OF wf])
qed

lemma rr_body_inv:
  assumes "rr_inv s"
  shows "rr_inv (rr_body q s)"
proof -
  from assms have wf: "rr_wf s" and cnt: "rr_completed s = card (rr_done s)"
    and dn: "\<And>i. i \<in> rr_done s \<Longrightarrow>
               remaining (rr_processes s ! i) = 0 \<and> completion (rr_processes s ! i) \<noteq> None"
    unfolding rr_inv_def by auto
  have wf': "rr_wf (rr_body q s)" by (rule rr_body_wf[OF wf])
  show ?thesis
  proof (cases "rr_queue (rr_scan None s)")
    case Nil
    have "rr_processes (rr_body q s) = rr_processes s" "rr_completed (rr_body q s) = rr_completed s"
      by (simp_all add: rr_body_idle[OF Nil])
    with rr_body_idle_done[OF wf Nil, of q] wf' cnt dn show ?thesis
      unfolding rr_inv_def by simp
  next
    case (Cons current rest)
    note d = rr_body_done(1)[OF wf Cons, of q] rr_body_done(2,3)[OF wf Cons]
    show ?thesis
    proof (cases "q < remaining (rr_processes s ! current)")
      case True
      note b = rr_body_requeue[OF Cons True]
      have "remaining (rr_processes (rr_body q s) ! i) = 0
            \<and> completion (rr_processes (rr_body q s) ! i) \<noteq> None"
        if "i \<in> rr_done (rr_body q s)" for i
      proof -
        from that d True have i: "i \<in> rr_done s" "i \<noteq> current" by auto
        then show ?thesis using dn[of i] by (simp add: b(1))
      qed
      with wf' cnt d(1) True b(2) show ?thesis unfolding rr_inv_def by simp
    next
      case False
      note b = rr_body_complete[OF Cons False]
      have "remaining (rr_processes (rr_body q s) ! i) = 0
            \<and> completion (rr_processes (rr_body q s) ! i) \<noteq> None"
        if "i \<in> rr_done (rr_body q s)" for i
      proof (cases "i = current")
        case True
        then show ?thesis using d(3) by (simp add: b(1) finish_def Let_def)
      next
        case ne: False
        with that d False have "i \<in> rr_done s" by auto
        then show ?thesis using dn[of i] ne by (simp add: b(1))
      qed
      moreover have "rr_completed (rr_body q s) = card (rr_done (rr_body q s))"
        using d False cnt b(2) by simp
      ultimately show ?thesis using wf' unfolding rr_inv_def by simp
    qed
  qed
qed

lemma rr_init_inv: "rr_inv (rr_init procs)"
proof -
  have "rr_done (rr_init procs) = {}"
    by (auto simp: rr_done_def rr_init_def)
  then show ?thesis by (simp add: rr_inv_def rr_init_wf) (simp add: rr_init_def)
qed

subsection \<open>Round Robin: termination\<close>

lemma sum_list_update_less:
  fixes g :: "'a \<Rightarrow> nat"
  assumes "c < length xs" "g x < g (xs ! c)"
  shows "sum_list (map g (xs[c := x])) < sum_list (map g xs)"
proof -
  have "g (xs ! c) \<le> sum_list (map g xs)"
    using assms(1) elem_le_sum_list[of c "map g xs"] by simp
  moreover have "sum_list (map g (xs[c := x])) = sum_list (map g xs) + g x - g (xs ! c)"
    using assms(1) by (simp add: map_update sum_list_update)
  ultimately show ?thesis using assms(2) by linarith
qed

lemma rr_idle_unarrived:
  assumes inv: "rr_inv s" and c: "rr_cond s" and q: "rr_queue (rr_scan None s) = []"
  shows "\<exists>i<length (rr_processes s). rr_time s < arrival (rr_processes s ! i)"
proof -
  let ?n = "length (rr_processes s)"
  from inv have wf: "rr_wf s" and cnt: "rr_completed s = card (rr_done s)"
    unfolding rr_inv_def by auto
  from wf have len: "length (rr_arrived s) = ?n" unfolding rr_wf_def by simp
  have sub: "rr_done s \<subseteq> {0..<?n}" by (auto simp: rr_done_def)
  from c cnt have "card (rr_done s) < card {0..<?n}" by (simp add: rr_cond_def)
  with sub have "rr_done s \<noteq> {0..<?n}" by auto
  with sub have "\<exists>i\<in>{0..<?n}. i \<notin> rr_done s" by blast
  then obtain i where i: "i < ?n" "i \<notin> rr_done s" by auto
  from q have q0: "rr_queue s = []" and new: "filter (rr_due None s) [0..<?n] = []"
    by (simp_all add: rr_scan_queue)
  from i q0 have "\<not> rr_arrived s ! i" by (simp add: rr_done_def)
  moreover from new i have "\<not> rr_due None s i" by (auto simp: filter_empty_conv)
  ultimately have "rr_time s < arrival (rr_processes s ! i)" by (simp add: rr_due_def)
  with i show ?thesis by blast
qed

lemma rr_body_decreases:
  assumes inv: "rr_inv s" and c: "rr_cond s" and q: "0 < q"
  shows "(rr_body q s, s) \<in> measures [rr_left, rr_work, rr_wait]"
proof (cases "rr_queue (rr_scan None s)")
  case Nil
  have p: "rr_processes (rr_body q s) = rr_processes s" "rr_completed (rr_body q s) = rr_completed s"
    "rr_time (rr_body q s) = rr_time s + 1"
    by (simp_all add: rr_body_idle[OF Nil])
  from rr_idle_unarrived[OF inv c Nil] obtain i
    where i: "i < length (rr_processes s)" "rr_time s < arrival (rr_processes s ! i)" by auto
  then have "arrival (rr_processes s ! i) \<le> Max (arrival ` set (rr_processes s))"
    by (intro Max_ge) auto
  with i(2) have "rr_time s < Max (arrival ` set (rr_processes s))" by linarith
  then have "rr_wait (rr_body q s) < rr_wait s" by (simp add: rr_wait_def p)
  moreover have "rr_left (rr_body q s) = rr_left s" "rr_work (rr_body q s) = rr_work s"
    by (simp_all add: rr_left_def rr_work_def p)
  ultimately show ?thesis by simp
next
  case (Cons current rest)
  from inv have wf: "rr_wf s" unfolding rr_inv_def by simp
  note cur = rr_body_done(3)[OF wf Cons]
  show ?thesis
  proof (cases "q < remaining (rr_processes s ! current)")
    case True
    note b = rr_body_requeue[OF Cons True]
    have "rr_left (rr_body q s) = rr_left s" by (simp add: rr_left_def b)
    moreover have "rr_work (rr_body q s) < rr_work s"
      unfolding rr_work_def b(1) using cur True q
      by (intro sum_list_update_less) simp_all
    ultimately show ?thesis by simp
  next
    case False
    note b = rr_body_complete[OF Cons False]
    have "rr_left (rr_body q s) < rr_left s"
      using c by (simp add: rr_left_def rr_cond_def b)
    then show ?thesis by simp
  qed
qed

lemma rr_terminates:
  assumes "0 < q" "rr_inv s"
  shows "\<exists>t. while_option rr_cond (rr_body q) s = Some t"
proof (rule wf_rel_while_option_Some[where P = rr_inv and R = "measures [rr_left, rr_work, rr_wait]"])
  show "wf (measures [rr_left, rr_work, rr_wait])" by (rule wf_measures)
  show "\<And>s'. rr_inv s' \<and> rr_cond s' \<Longrightarrow> (rr_body q s', s') \<in> measures [rr_left, rr_work, rr_wait]"
    using rr_body_decreases[OF _ _ assms(1)] by blast
  show "\<And>s'. rr_inv s' \<and> rr_cond s' \<Longrightarrow> rr_inv (rr_body q s')"
    by (simp add: rr_body_inv)
  show "rr_inv s" by (rule assms(2))
qed

lemma rr_body_identity:
  "map identity (rr_processes (rr_body q s)) = map identity (rr_processes s)"
proof (cases "rr_queue (rr_scan None s)")
  case Nil
  then show ?thesis by (simp add: rr_body_idle)
next
  case (Cons current rest)
  show ?thesis
  proof (cases "q < remaining (rr_processes s ! current)")
    case True
    show ?thesis unfolding rr_body_requeue(1)[OF Cons True]
      by (rule map_update_same) (simp add: identity_def)
  next
    case False
    show ?thesis unfolding rr_body_complete(1)[OF Cons False]
      by (rule map_update_same) (simp add: identity_def finish_def Let_def)
  qed
qed

text \<open>What holds when the loop has ended.\<close>

lemma rr_final:
  assumes "while_option rr_cond (rr_body q) (rr_init procs) = Some t"
  shows "map identity (rr_processes t) = map identity (sort_key arrival procs)"
    and "\<forall>p\<in>set (rr_processes t). remaining p = 0 \<and> completion p \<noteq> None"
    and "rr_queue t = []"
proof -
  let ?n = "length (rr_processes t)"
  have "map identity (rr_processes t) = map identity (rr_processes (rr_init procs))"
    by (rule while_option_rule[where P = "\<lambda>s. map identity (rr_processes s)
                 = map identity (rr_processes (rr_init procs))", OF _ assms])
       (simp_all add: rr_body_identity)
  then show "map identity (rr_processes t) = map identity (sort_key arrival procs)"
    by (simp add: rr_init_def)
  have inv: "rr_inv t"
    by (rule while_option_rule[where P = rr_inv, OF _ assms]) (simp_all add: rr_body_inv rr_init_inv)
  have stop: "\<not> rr_cond t" by (rule while_option_stop[OF assms])
  from inv have wf: "rr_wf t" and cnt: "rr_completed t = card (rr_done t)"
    and dn: "\<And>i. i \<in> rr_done t \<Longrightarrow>
               remaining (rr_processes t ! i) = 0 \<and> completion (rr_processes t ! i) \<noteq> None"
    unfolding rr_inv_def by auto
  have sub: "rr_done t \<subseteq> {0..<?n}" by (auto simp: rr_done_def)
  from stop cnt have "card {0..<?n} \<le> card (rr_done t)" by (simp add: rr_cond_def)
  with sub have all: "rr_done t = {0..<?n}"
    by (metis card_seteq finite_atLeastLessThan)
  show "\<forall>p\<in>set (rr_processes t). remaining p = 0 \<and> completion p \<noteq> None"
  proof
    fix p assume "p \<in> set (rr_processes t)"
    then obtain i where "i < ?n" "p = rr_processes t ! i" by (auto simp: in_set_conv_nth)
    with all dn[of i] show "remaining p = 0 \<and> completion p \<noteq> None" by simp
  qed
  from wf all show "rr_queue t = []"
    unfolding rr_wf_def rr_done_def by (cases "rr_queue t") auto
qed

lemma round_robin_returns:
  assumes "0 < q"
  shows "\<exists>gantt ps. round_robin procs q = Some (gantt, ps)
           \<and> map identity ps = map identity (sort_key arrival procs)
           \<and> (\<forall>p\<in>set ps. remaining p = 0 \<and> completion p \<noteq> None)"
proof -
  from rr_terminates[OF assms rr_init_inv, of procs] obtain t
    where t: "while_option rr_cond (rr_body q) (rr_init procs) = Some t" by blast
  from rr_final(1,2)[OF t] t show ?thesis by (simp add: round_robin_def)
qed

subsection \<open>Round Robin on processes that have no remaining time\<close>

lemma rr_body_zero:
  assumes wf: "rr_wf s" and q: "0 < q"
    and z: "\<forall>p\<in>set (rr_processes s). remaining p = 0"
    and g: "\<forall>g\<in>set (rr_gantt s). duration g = 0"
  shows "(\<forall>p\<in>set (rr_processes (rr_body q s)). remaining p = 0)
         \<and> (\<forall>g\<in>set (rr_gantt (rr_body q s)). duration g = 0)"
proof (cases "rr_queue (rr_scan None s)")
  case Nil
  with z g show ?thesis by (simp add: rr_body_idle)
next
  case (Cons current rest)
  from rr_body_done(3)[OF wf Cons] z
  have r: "remaining (rr_processes s ! current) = 0" by simp
  with q have nr: "\<not> q < remaining (rr_processes s ! current)" by simp
  note b = rr_body_complete[OF Cons nr]
  have "remaining p = 0" if "p \<in> set (rr_processes (rr_body q s))" for p
  proof -
    from that have "p \<in> insert (finish (rr_time s + remaining (rr_processes s ! current))
                ((rr_processes s ! current)\<lparr>remaining := 0\<rparr>)) (set (rr_processes s))"
      unfolding b(1) using set_update_subset_insert by fastforce
    then show ?thesis using z by (auto simp: finish_def Let_def)
  qed
  moreover have "\<forall>g\<in>set (rr_gantt (rr_body q s)). duration g = 0"
    using g r by (simp add: b(4) duration_def)
  ultimately show ?thesis by blast
qed

lemma round_robin_zero:
  assumes q: "0 < q" and z: "\<forall>p\<in>set procs. remaining p = 0"
  shows "\<exists>gantt ps. round_robin procs q = Some (gantt, ps) \<and> (\<forall>g\<in>set gantt. duration g = 0)"
proof -
  from rr_terminates[OF q rr_init_inv, of procs] obtain t
    where t: "while_option rr_cond (rr_body q) (rr_init procs) = Some t" by blast
  let ?P = "\<lambda>s. rr_wf s \<and> (\<forall>p\<in>set (rr_processes s). remaining p = 0)
                    \<and> (\<forall>g\<in>set (rr_gantt s). duration g = 0)"
  have "?P t"
  proof (rule while_option_rule[where P = ?P, OF _ t])
    show "?P (rr_body q s)" if "?P s" for s
      using that rr_body_wf[of s q] rr_body_zero[OF _ q, of s] by blast
    show "?P (rr_init procs)" using z by (simp add: rr_init_wf) (simp add: rr_init_def)
  qed
  with t show ?thesis by (simp add: round_robin_def)
qed

subsection \<open>A loop that never leaves its invariant does not return\<close>

lemma while_option_diverges:
  assumes step: "\<And>s. I s \<Longrightarrow> b s \<and> I (c s)" and init: "I s"
  shows "while_option b c s = None"
proof (cases "while_option b c s")
  case None
  then show ?thesis .
next
  case (Some t)
  from while_option_stop2[OF Some] obtain k where k: "t = (c ^^ k) s" "\<not> b t" by blast
  have "I ((c ^^ k) s)" for k
    by (induction k) (simp_all add: init step)
  with step k show ?thesis by blast
qed

text \<open>With nothing ever ready, the counter \<^verbatim>\<open>completed\<close> stays 0 and the loops of
  \<^verbatim>\<open>sjf.py\<close> only advance the clock: on a non-empty list of such objects they do not
  return.\<close>

lemma sjf_preemptive_nothing_ready:
  assumes "procs \<noteq> []" "\<forall>p\<in>set procs. remaining p = 0"
  shows "sjf_preemptive procs = None"
proof -
  let ?I = "\<lambda>s. srtf_processes s = procs \<and> srtf_completed s = 0"
  have ready: "srtf_ready_queue s = []" if "?I s" for s
    using that assms(2) by (auto simp: srtf_ready_queue_def filter_empty_conv)
  have "while_option srtf_cond srtf_body
          \<lparr>srtf_processes = procs, srtf_time = 0, srtf_completed = 0,
           srtf_gantt = [], srtf_current_process = None\<rparr> = None"
  proof (rule while_option_diverges[where I = ?I])
    show "srtf_cond s \<and> ?I (srtf_body s)" if "?I s" for s
      using that ready[OF that] assms(1) by (simp add: srtf_cond_def srtf_body_def)
  qed simp
  then show ?thesis by (simp add: sjf_preemptive_def)
qed

lemma sjf_non_preemptive_nothing_ready:
  assumes "procs \<noteq> []" "\<forall>p\<in>set procs. completion p \<noteq> None"
  shows "sjf_non_preemptive procs = None"
proof -
  let ?I = "\<lambda>s. sjf_processes s = procs \<and> sjf_completed s = 0"
  have ready: "sjf_ready_queue s = []" if "?I s" for s
    using that assms(2) by (auto simp: sjf_ready_queue_def filter_empty_conv)
  have "while_option sjf_cond sjf_body
          \<lparr>sjf_processes = procs, sjf_time = 0, sjf_completed = 0, sjf_gantt = []\<rparr> = None"
  proof (rule while_option_diverges[where I = ?I])
    show "sjf_cond s \<and> ?I (sjf_body s)" if "?I s" for s
      using that ready[OF that] assms(1) by (simp add: sjf_cond_def sjf_body_def)
  qed simp
  then show ?thesis by (simp add: sjf_non_preemptive_def)
qed

text \<open>
  Claim C10.  For every list of processes and every positive quantum \<^verbatim>\<open>round_robin\<close>
  returns, and leaves the caller's list sorted by arrival time (a stable sort; the
  fields \<^verbatim>\<open>pid\<close>, \<^verbatim>\<open>arrival\<close>, \<^verbatim>\<open>burst\<close> are untouched) with \<^verbatim>\<open>remaining == 0\<close> in every
  object.  Passing these objects to a scheduler again schedules no work: a second
  \<^verbatim>\<open>round_robin\<close>, with any positive quantum, returns only segments of duration 0, and
  the ready queues of \<^verbatim>\<open>sjf_preemptive\<close> and \<^verbatim>\<open>sjf_non_preemptive\<close> are empty at every
  clock value.
\<close>

theorem round_robin_consumes_input:
  assumes "0 < q"
  shows "\<exists>gantt ps.
           round_robin procs q = Some (gantt, ps)
           \<and> map identity ps = map identity (sort_key arrival procs)
           \<and> (\<forall>p\<in>set ps. remaining p = 0)
           \<and> (\<forall>q2>0. \<exists>gantt2 ps2. round_robin ps q2 = Some (gantt2, ps2)
                         \<and> (\<forall>g\<in>set gantt2. duration g = 0))
           \<and> (\<forall>t c g cp.
                 srtf_ready_queue \<lparr>srtf_processes = ps, srtf_time = t, srtf_completed = c,
                                   srtf_gantt = g, srtf_current_process = cp\<rparr> = [])
           \<and> (\<forall>t c g.
                 sjf_ready_queue \<lparr>sjf_processes = ps, sjf_time = t, sjf_completed = c,
                                  sjf_gantt = g\<rparr> = [])"
proof -
  from round_robin_returns[OF assms, of procs] obtain gantt ps
    where r: "round_robin procs q = Some (gantt, ps)"
      and i: "map identity ps = map identity (sort_key arrival procs)"
      and z: "\<forall>p\<in>set ps. remaining p = 0 \<and> completion p \<noteq> None"
    by blast
  from z have z0: "\<forall>p\<in>set ps. remaining p = 0" by blast
  have again: "\<forall>q2>0. \<exists>gantt2 ps2. round_robin ps q2 = Some (gantt2, ps2)
                         \<and> (\<forall>g\<in>set gantt2. duration g = 0)"
    using round_robin_zero[OF _ z0] by blast
  have srtf: "\<forall>t c g cp.
                 srtf_ready_queue \<lparr>srtf_processes = ps, srtf_time = t, srtf_completed = c,
                                   srtf_gantt = g, srtf_current_process = cp\<rparr> = []"
    using z by (auto simp: srtf_ready_queue_def filter_empty_conv)
  have sjf: "\<forall>t c g.
                 sjf_ready_queue \<lparr>sjf_processes = ps, sjf_time = t, sjf_completed = c,
                                  sjf_gantt = g\<rparr> = []"
    using z by (auto simp: sjf_ready_queue_def filter_empty_conv)
  from r i z0 again srtf sjf show ?thesis by blast
qed

text \<open>The theorem on the sample processes of \<^verbatim>\<open>rr.py\<close> with quantum 3.\<close>

theorem round_robin_consumes_input_witness:
  "(0::int) < 3
   \<and> round_robin rr_example 3 =
       Some ([(1, 0, 3), (2, 3, 6), (3, 6, 8), (1, 8, 11), (2, 11, 12), (1, 12, 14)],
             [\<lparr>proc.pid = 1, arrival = 0, burst = 8, remaining = 0,
                completion = Some 14, turnaround = 14, waiting = 6\<rparr>,
              \<lparr>proc.pid = 2, arrival = 1, burst = 4, remaining = 0,
                completion = Some 12, turnaround = 11, waiting = 7\<rparr>,
              \<lparr>proc.pid = 3, arrival = 2, burst = 2, remaining = 0,
                completion = Some 8, turnaround = 6, waiting = 4\<rparr>])
   \<and> (\<exists>gantt ps. round_robin rr_example 3 = Some (gantt, ps)
         \<and> (\<exists>gantt2 ps2. round_robin ps 3 = Some (gantt2, ps2)
               \<and> sum_list (map duration gantt2) = 0))"
proof -
  have a: "round_robin rr_example 3 =
       Some ([(1, 0, 3), (2, 3, 6), (3, 6, 8), (1, 8, 11), (2, 11, 12), (1, 12, 14)],
             [\<lparr>proc.pid = 1, arrival = 0, burst = 8, remaining = 0,
                completion = Some 14, turnaround = 14, waiting = 6\<rparr>,
              \<lparr>proc.pid = 2, arrival = 1, burst = 4, remaining = 0,
                completion = Some 12, turnaround = 11, waiting = 7\<rparr>,
              \<lparr>proc.pid = 3, arrival = 2, burst = 2, remaining = 0,
                completion = Some 8, turnaround = 6, waiting = 4\<rparr>])"
    by code_simp
  have z: "sum_list (map duration gantt2) = 0" if "\<forall>g\<in>set gantt2. duration g = 0"
    for gantt2 :: "int segment list"
    using that by (induction gantt2) simp_all
  from round_robin_consumes_input[of 3 rr_example]
  obtain gantt ps where "round_robin rr_example 3 = Some (gantt, ps)"
    and "\<forall>q2>0. \<exists>gantt2 ps2. round_robin ps q2 = Some (gantt2, ps2)
                         \<and> (\<forall>g\<in>set gantt2. duration g = 0)"
    by auto
  then have "\<exists>gantt ps. round_robin rr_example 3 = Some (gantt, ps)
         \<and> (\<exists>gantt2 ps2. round_robin ps 3 = Some (gantt2, ps2)
               \<and> sum_list (map duration gantt2) = 0)"
    using z by (metis zero_less_numeral)
  with a show ?thesis by simp
qed

subsection \<open>CPU utilisation of \<^verbatim>\<open>fcfs_scheduling\<close>\<close>

lemma sum_list_insort_key:
  fixes f :: "'a \<Rightarrow> int"
  shows "sum_list (map f (insort_key g x xs)) = f x + sum_list (map f xs)"
  by (induction xs) simp_all

lemma sum_list_sort_key:
  fixes f :: "'a \<Rightarrow> int"
  shows "sum_list (map f (sort_key g xs)) = sum_list (map f xs)"
  by (induction xs) (simp_all add: sum_list_insort_key)




lemma fcfs_loop_Cons:
  "fcfs_loop t (p # ps) =
     (fst (fcfs_body t p) # fst (fcfs_loop (snd (snd (fcfs_body t p))) ps),
      fst (snd (fcfs_body t p)) # fst (snd (fcfs_loop (snd (snd (fcfs_body t p))) ps)),
      snd (snd (fcfs_loop (snd (snd (fcfs_body t p))) ps)))"
  by (simp add: case_prod_beta)






subsection \<open>\<^verbatim>\<open>priority_scheduling\<close>: termination and CPU utilisation\<close>

lemma py_min_from_mem: "py_min_from key x xs \<in> set (x # xs)"
  using first_min_mem[OF py_min_from_first_min] .











subsection \<open>Round Robin (\<^verbatim>\<open>rr.py\<close>): no work lost, and the metrics of valid inputs\<close>

lemma sum_list_map_update:
  fixes f :: "'a \<Rightarrow> int"
  assumes "c < length xs"
  shows "sum_list (map f (xs[c := x])) = sum_list (map f xs) - f (xs ! c) + f x"
  using assms
proof (induction xs arbitrary: c)
  case Nil
  then show ?case by simp
next
  case (Cons y ys)
  then show ?case by (cases c) simp_all
qed

lemma sum_list_all_zero:
  fixes f :: "'a \<Rightarrow> int"
  shows "\<forall>x\<in>set xs. f x = 0 \<Longrightarrow> sum_list (map f xs) = 0"
  by (induction xs) simp_all

lemma rr_body_work:
  assumes wf: "rr_wf s"
  shows "sum_list (map duration (rr_gantt (rr_body q s)))
           + sum_list (map remaining (rr_processes (rr_body q s)))
         = sum_list (map duration (rr_gantt s)) + sum_list (map remaining (rr_processes s))"
proof (cases "rr_queue (rr_scan None s)")
  case Nil
  then show ?thesis by (simp add: rr_body_idle)
next
  case (Cons current rest)
  note cur = rr_body_done(3)[OF wf Cons]
  show ?thesis
  proof (cases "q < remaining (rr_processes s ! current)")
    case True
    show ?thesis
      unfolding rr_body_requeue[OF Cons True]
      by (simp add: sum_list_map_update[OF cur] duration_def)
  next
    case False
    show ?thesis
      unfolding rr_body_complete[OF Cons False]
      by (simp add: sum_list_map_update[OF cur] duration_def finish_def Let_def)
  qed
qed

lemma round_robin_work:
  assumes q: "0 < q" and r: "round_robin procs q = Some (gantt, ps)"
  shows "sum_list (map duration gantt) = sum_list (map remaining procs)"
proof -
  from r obtain t where t: "while_option rr_cond (rr_body q) (rr_init procs) = Some t"
    and g: "gantt = rr_gantt t" "ps = rr_processes t"
    by (auto simp: round_robin_def)
  let ?P = "\<lambda>s. rr_wf s \<and> sum_list (map duration (rr_gantt s))
                 + sum_list (map remaining (rr_processes s))
               = sum_list (map remaining procs)"
  have "?P t"
  proof (rule while_option_rule[where P = ?P, OF _ t])
    show "?P (rr_body q s)" if "?P s" for s
      using that rr_body_wf[of s q] rr_body_work[of s q] by simp
    show "?P (rr_init procs)"
      by (simp add: rr_init_wf) (simp add: rr_init_def sum_list_sort_key)
  qed
  moreover have "sum_list (map remaining (rr_processes t)) = 0"
    using rr_final(2)[OF t] by (intro sum_list_all_zero) simp
  ultimately show ?thesis using g by simp
qed

lemma rr_body_arrived_cases:
  assumes wf: "rr_wf s" and i: "i < length (rr_processes s)"
    and a: "rr_arrived (rr_body q s) ! i" and mono: "rr_time s \<le> rr_time (rr_body q s)"
  shows "rr_arrived s ! i \<or> arrival (rr_processes s ! i) \<le> rr_time (rr_body q s)"
proof -
  from wf have len: "length (rr_arrived s) = length (rr_processes s)"
    unfolding rr_wf_def by simp
  show ?thesis
  proof (cases "rr_queue (rr_scan None s)")
    case Nil
    from a have "rr_arrived (rr_scan None s) ! i" by (simp add: rr_body_idle[OF Nil])
    then have "rr_arrived s ! i \<or> rr_due None s i" using i len by (simp add: rr_scan_arrived)
    then show ?thesis using mono by (auto simp: rr_due_def)
  next
    case (Cons current rest)
    let ?sl = "rr_slice q current rest (rr_scan None s)"
    have ar: "rr_arrived (rr_body q s) = rr_arrived (rr_scan (Some (rr_time s)) ?sl)"
      by (cases "q < remaining (rr_processes s ! current)")
         (simp_all add: rr_body_slice[OF Cons] Let_def)
    note t = rr_body_queue(1)[OF wf Cons, of q]
    from a have "rr_arrived (rr_scan None s) ! i \<or> rr_due (Some (rr_time s)) ?sl i"
      unfolding ar using i len by (simp add: rr_scan_arrived[of i ?sl])
    then have "rr_arrived s ! i \<or> rr_due None s i \<or> rr_due (Some (rr_time s)) ?sl i"
      using i len by (simp add: rr_scan_arrived)
    then show ?thesis using mono i unfolding t by (auto simp: rr_due_def)
  qed
qed

lemma rr_current_arrival:
  assumes wf: "rr_wf s" and q: "rr_queue (rr_scan None s) = current # rest"
    and m: "rr_arrived s ! current \<longrightarrow> arrival (rr_processes s ! current) \<le> rr_time s"
  shows "arrival (rr_processes s ! current) \<le> rr_time s"
proof -
  from wf have len: "length (rr_arrived s) = length (rr_processes s)"
    unfolding rr_wf_def by simp
  note cur = rr_body_done(3)[OF wf q]
  from rr_scan_wf[OF wf, of None] q have "rr_arrived (rr_scan None s) ! current"
    unfolding rr_wf_def by simp
  then have "rr_arrived s ! current \<or> rr_due None s current"
    using cur len by (simp add: rr_scan_arrived)
  with m show ?thesis by (auto simp: rr_due_def)
qed

lemma rr_body_metrics:
  assumes inv: "rr_inv s" and m: "rr_metrics_inv s" and q: "0 < q"
  shows "rr_metrics_inv (rr_body q s)"
proof -
  let ?n = "length (rr_processes s)"
  let ?s' = "rr_body q s"
  from inv have wf: "rr_wf s" unfolding rr_inv_def by simp
  from m have b: "\<And>i. i < ?n \<Longrightarrow> 0 < burst (rr_processes s ! i)"
    and r: "\<And>i. i < ?n \<Longrightarrow> 0 \<le> remaining (rr_processes s ! i)"
    and a: "\<And>i. i < ?n \<Longrightarrow> rr_arrived s ! i \<Longrightarrow> arrival (rr_processes s ! i) \<le> rr_time s"
    and w: "\<And>i. i < ?n \<Longrightarrow> burst (rr_processes s ! i) - remaining (rr_processes s ! i)
               \<le> max 0 (rr_time s - arrival (rr_processes s ! i))"
    and d: "\<And>i. i \<in> rr_done s \<Longrightarrow> metrics_ok (rr_processes s ! i)"
    unfolding rr_metrics_inv_def by auto
  show ?thesis
  proof (cases "rr_queue (rr_scan None s)")
    case Nil
    have p: "rr_processes ?s' = rr_processes s" "rr_time ?s' = rr_time s + 1"
      by (simp_all add: rr_body_idle[OF Nil])
    have dn: "rr_done ?s' = rr_done s" by (rule rr_body_idle_done[OF wf Nil])
    have ar: "arrival (rr_processes s ! i) \<le> rr_time s + 1"
      if "i < ?n" "rr_arrived ?s' ! i" for i
      using rr_body_arrived_cases[OF wf that(1,2)] a[OF that(1)] by (auto simp: p)
    have 1: "0 < burst (rr_processes s ! i) \<and> 0 \<le> remaining (rr_processes s ! i)
         \<and> (rr_arrived ?s' ! i \<longrightarrow> arrival (rr_processes s ! i) \<le> rr_time s + 1)
         \<and> burst (rr_processes s ! i) - remaining (rr_processes s ! i)
               \<le> max 0 (rr_time s + 1 - arrival (rr_processes s ! i))"
      if i: "i < ?n" for i
      using b[OF i] r[OF i] w[OF i] ar[OF i] by (auto simp: max_def split: if_splits)
    show ?thesis
      unfolding rr_metrics_inv_def p dn using 1 d by blast
  next
    case (Cons current rest)
    note cur = rr_body_done(3)[OF wf Cons]
    note dn = rr_body_done(1)[OF wf Cons, of q] rr_body_done(2)[OF wf Cons]
    have ca: "arrival (rr_processes s ! current) \<le> rr_time s"
      using rr_current_arrival[OF wf Cons] a[OF cur] by blast
    show ?thesis
    proof (cases "q < remaining (rr_processes s ! current)")
      case True
      note bd = rr_body_requeue[OF Cons True]
      have mono: "rr_time s \<le> rr_time ?s'" using q by (simp add: bd)
      have ar: "arrival (rr_processes s ! i) \<le> rr_time s + q"
        if "i < ?n" "rr_arrived ?s' ! i" for i
        using rr_body_arrived_cases[OF wf that(1,2) mono] a[OF that(1)] q by (auto simp: bd)
      have 1: "0 < burst (rr_processes ?s' ! i) \<and> 0 \<le> remaining (rr_processes ?s' ! i)
         \<and> (rr_arrived ?s' ! i \<longrightarrow> arrival (rr_processes ?s' ! i) \<le> rr_time ?s')
         \<and> burst (rr_processes ?s' ! i) - remaining (rr_processes ?s' ! i)
               \<le> max 0 (rr_time ?s' - arrival (rr_processes ?s' ! i))"
        if i: "i < ?n" for i
      proof (cases "i = current")
        case eq: True
        show ?thesis
          using b[OF cur] r[OF cur] w[OF cur] ca ar[OF cur] True q cur
          unfolding eq bd by (simp add: max_def)
      next
        case False
        then show ?thesis
          using b[OF i] r[OF i] w[OF i] ar[OF i] q i
          unfolding bd by (auto simp: max_def split: if_splits)
      qed
      have 2: "metrics_ok (rr_processes ?s' ! i)" if "i \<in> rr_done ?s'" for i
      proof -
        from that dn True have "i \<in> rr_done s" "i \<noteq> current" by auto
        then show ?thesis using d[of i] by (simp add: bd)
      qed
      have n: "length (rr_processes ?s') = ?n" by (simp add: bd)
      show ?thesis unfolding rr_metrics_inv_def n using 1 2 by blast
    next
      case False
      note bd = rr_body_complete[OF Cons False]
      have mono: "rr_time s \<le> rr_time ?s'" using r[OF cur] by (simp add: bd)
      have ar: "arrival (rr_processes s ! i) \<le> rr_time s + remaining (rr_processes s ! current)"
        if "i < ?n" "rr_arrived ?s' ! i" for i
        using rr_body_arrived_cases[OF wf that(1,2) mono] a[OF that(1)] r[OF cur]
        by (auto simp: bd)
      have fin: "burst (rr_processes s ! current)
                   \<le> rr_time s + remaining (rr_processes s ! current)
                       - arrival (rr_processes s ! current)"
        using w[OF cur] ca by (simp add: max_def)
      have 1: "0 < burst (rr_processes ?s' ! i) \<and> 0 \<le> remaining (rr_processes ?s' ! i)
         \<and> (rr_arrived ?s' ! i \<longrightarrow> arrival (rr_processes ?s' ! i) \<le> rr_time ?s')
         \<and> burst (rr_processes ?s' ! i) - remaining (rr_processes ?s' ! i)
               \<le> max 0 (rr_time ?s' - arrival (rr_processes ?s' ! i))"
        if i: "i < ?n" for i
      proof (cases "i = current")
        case eq: True
        show ?thesis
          using b[OF cur] fin ca r[OF cur] cur
          unfolding eq bd by (simp add: max_def finish_def Let_def)
      next
        case False
        then show ?thesis
          using b[OF i] r[OF i] w[OF i] ar[OF i] r[OF cur] i
          unfolding bd by (auto simp: max_def split: if_splits)
      qed
      have 2: "metrics_ok (rr_processes ?s' ! i)" if "i \<in> rr_done ?s'" for i
      proof (cases "i = current")
        case eq: True
        show ?thesis using fin cur unfolding eq bd
          by (simp add: metrics_ok_def finish_def Let_def)
      next
        case ne: False
        with that dn False have "i \<in> rr_done s" by auto
        then show ?thesis using d[of i] ne by (simp add: bd)
      qed
      have n: "length (rr_processes ?s') = ?n" by (simp add: bd)
      show ?thesis unfolding rr_metrics_inv_def n using 1 2 by blast
    qed
  qed
qed

lemma rr_init_metrics:
  assumes "\<forall>p\<in>set procs. 0 < burst p \<and> remaining p = burst p"
  shows "rr_metrics_inv (rr_init procs)"
proof -
  have d: "rr_done (rr_init procs) = {}" by (auto simp: rr_done_def rr_init_def)
  have "0 < burst p \<and> remaining p = burst p"
    if "p \<in> set (sort_key arrival procs)" for p using that assms by simp
  then have "0 < burst (sort_key arrival procs ! i) \<and>
             remaining (sort_key arrival procs ! i) = burst (sort_key arrival procs ! i)"
    if "i < length (sort_key arrival procs)" for i
    using that nth_mem by blast
  then show ?thesis
    unfolding rr_metrics_inv_def d by (simp add: rr_init_def) (metis less_imp_le)
qed

text \<open>Round Robin of \<^verbatim>\<open>rr.py\<close> on valid input (positive quantum and burst times, fresh
  objects): the call returns, every process has the metrics of the specification, and
  the durations of the segments add up to the burst times.\<close>

lemma round_robin_valid_input:
  assumes q: "0 < q" and v: "\<forall>p\<in>set procs. 0 < burst p \<and> remaining p = burst p"
  shows "\<exists>gantt ps. round_robin procs q = Some (gantt, ps)
           \<and> (\<forall>p\<in>set ps. metrics_ok p)
           \<and> sum_list (map duration gantt) = sum_list (map burst procs)"
proof -
  from rr_terminates[OF q rr_init_inv, of procs] obtain t
    where t: "while_option rr_cond (rr_body q) (rr_init procs) = Some t" by blast
  then have r: "round_robin procs q = Some (rr_gantt t, rr_processes t)"
    by (simp add: round_robin_def)
  let ?P = "\<lambda>s. rr_inv s \<and> rr_metrics_inv s"
  have P: "?P t"
  proof (rule while_option_rule[where P = ?P, OF _ t])
    show "?P (rr_body q s)" if "?P s" for s
      using that rr_body_inv[of s q] rr_body_metrics[OF _ _ q, of s] by blast
    show "?P (rr_init procs)" using rr_init_inv rr_init_metrics[OF v] by blast
  qed
  have stop: "\<not> rr_cond t" by (rule while_option_stop[OF t])
  let ?n = "length (rr_processes t)"
  from P have cnt: "rr_completed t = card (rr_done t)" unfolding rr_inv_def by simp
  have sub: "rr_done t \<subseteq> {0..<?n}" by (auto simp: rr_done_def)
  from stop cnt have "card {0..<?n} \<le> card (rr_done t)" by (simp add: rr_cond_def)
  with sub have all: "rr_done t = {0..<?n}"
    by (metis card_seteq finite_atLeastLessThan)
  have m: "\<forall>p\<in>set (rr_processes t). metrics_ok p"
  proof
    fix p assume "p \<in> set (rr_processes t)"
    then obtain i where "i < ?n" "p = rr_processes t ! i" by (auto simp: in_set_conv_nth)
    with all P show "metrics_ok p" unfolding rr_metrics_inv_def by simp
  qed
  have "sum_list (map remaining procs) = sum_list (map burst procs)"
    using v by (intro arg_cong[where f = sum_list] map_cong) simp_all
  with round_robin_work[OF q r] have "sum_list (map duration (rr_gantt t)) = sum_list (map burst procs)"
    by simp
  with r m show ?thesis by blast
qed

subsection \<open>SJF non-preemptive (\<^verbatim>\<open>sjf.py\<close>): termination, metrics, no work lost\<close>

lemma sjf_finished_finite [simp]: "finite (sjf_finished s)"
  unfolding sjf_finished_def by simp

lemma sjf_body_idle:
  "sjf_ready_queue s = [] \<Longrightarrow> sjf_body s = s\<lparr>sjf_time := sjf_time s + 1\<rparr>"
  by (simp add: sjf_body_def)

lemma sjf_body_run:
  assumes "sjf_ready_queue s = i # rest"
  shows "sjf_body s =
     (let current = py_min_from (\<lambda>i. burst (sjf_processes s ! i)) i rest;
          p = sjf_processes s ! current
      in s\<lparr>sjf_time := sjf_time s + burst p,
           sjf_processes := (sjf_processes s)[current := finish (sjf_time s + burst p) p],
           sjf_gantt := sjf_gantt s @ [(proc.pid p, sjf_time s, sjf_time s + burst p)],
           sjf_completed := sjf_completed s + 1\<rparr>)"
  using assms by (simp add: sjf_body_def Let_def)

lemma sjf_selected:
  assumes "sjf_ready_queue s = i # rest"
  defines "current \<equiv> py_min_from (\<lambda>i. burst (sjf_processes s ! i)) i rest"
  shows "current < length (sjf_processes s)"
    and "arrival (sjf_processes s ! current) \<le> sjf_time s"
    and "completion (sjf_processes s ! current) = None"
proof -
  have "current \<in> set (sjf_ready_queue s)"
    unfolding assms(1) current_def by (rule py_min_from_mem)
  then show "current < length (sjf_processes s)"
    "arrival (sjf_processes s ! current) \<le> sjf_time s"
    "completion (sjf_processes s ! current) = None"
    by (simp_all add: sjf_ready_queue_def)
qed

lemma sjf_body_inv:
  assumes inv: "sjf_inv procs s"
  shows "sjf_inv procs (sjf_body s)"
proof (cases "sjf_ready_queue s")
  case Nil
  have "sjf_finished (sjf_body s) = sjf_finished s"
    by (simp add: sjf_body_idle[OF Nil] sjf_finished_def)
  with inv show ?thesis unfolding sjf_inv_def by (simp add: sjf_body_idle[OF Nil])
next
  case (Cons i rest)
  let ?c = "py_min_from (\<lambda>i. burst (sjf_processes s ! i)) i rest"
  let ?p = "sjf_processes s ! ?c"
  let ?t = "sjf_time s + burst ?p"
  note sel = sjf_selected[OF Cons]
  have ps: "sjf_processes (sjf_body s) = (sjf_processes s)[?c := finish ?t ?p]"
    and cp: "sjf_completed (sjf_body s) = sjf_completed s + 1"
    and g: "sjf_gantt (sjf_body s) = sjf_gantt s @ [(proc.pid ?p, sjf_time s, ?t)]"
    by (simp_all add: sjf_body_run[OF Cons] Let_def)
  have fin: "sjf_finished (sjf_body s) = insert ?c (sjf_finished s)"
    unfolding sjf_finished_def ps using sel(1)
    by (auto simp: nth_list_update finish_def Let_def split: if_splits)
  have notin: "?c \<notin> sjf_finished s" using sel(3) by (simp add: sjf_finished_def)
  from inv have cnt: "sjf_completed s = card (sjf_finished s)"
    and idn: "map identity (sjf_processes s) = map identity procs"
    and met: "\<And>i. i \<in> sjf_finished s \<Longrightarrow> metrics_ok (sjf_processes s ! i)"
    and work: "sum_list (map duration (sjf_gantt s)) + sum_list (map sjf_pending (sjf_processes s))
          = sum_list (map burst procs)"
    unfolding sjf_inv_def by auto
  have 1: "sjf_completed (sjf_body s) = card (sjf_finished (sjf_body s))"
    unfolding cp fin using cnt notin by simp
  have 2: "map identity (sjf_processes (sjf_body s)) = map identity procs"
    unfolding ps idn[symmetric]
    by (rule map_update_same) (simp add: identity_def finish_def Let_def)
  have 3: "metrics_ok (sjf_processes (sjf_body s) ! j)" if "j \<in> sjf_finished (sjf_body s)" for j
  proof (cases "j = ?c")
    case True
    then show ?thesis using sel(1,2) unfolding ps
      by (simp add: metrics_ok_def finish_def Let_def)
  next
    case False
    with that fin have "j \<in> sjf_finished s" by simp
    with met False show ?thesis by (simp add: ps)
  qed
  have 4: "sum_list (map duration (sjf_gantt (sjf_body s)))
             + sum_list (map sjf_pending (sjf_processes (sjf_body s)))
           = sum_list (map burst procs)"
    unfolding g ps using work sel(3)
    by (simp add: sum_list_map_update[OF sel(1)] duration_def sjf_pending_def finish_def Let_def)
  from 1 2 3 4 show ?thesis unfolding sjf_inv_def by blast
qed

lemma sjf_body_decreases:
  assumes inv: "sjf_inv procs s" and c: "sjf_cond s"
  shows "(sjf_body s, s) \<in> measures [sjf_left, sjf_wait]"
proof (cases "sjf_ready_queue s")
  case Nil
  let ?n = "length (sjf_processes s)"
  from inv have cnt: "sjf_completed s = card (sjf_finished s)" unfolding sjf_inv_def by simp
  have sub: "sjf_finished s \<subseteq> {0..<?n}" by (auto simp: sjf_finished_def)
  from c cnt have "card (sjf_finished s) < card {0..<?n}" by (simp add: sjf_cond_def)
  with sub have "sjf_finished s \<noteq> {0..<?n}" by auto
  with sub have "\<exists>i\<in>{0..<?n}. i \<notin> sjf_finished s" by blast
  then obtain i where i: "i < ?n" "completion (sjf_processes s ! i) = None"
    by (auto simp: sjf_finished_def)
  have late: "sjf_time s < arrival (sjf_processes s ! i)"
  proof (rule ccontr)
    assume "\<not> sjf_time s < arrival (sjf_processes s ! i)"
    with i have "i \<in> set (sjf_ready_queue s)" by (simp add: sjf_ready_queue_def)
    with Nil show False by simp
  qed
  from i have "arrival (sjf_processes s ! i) \<le> Max (arrival ` set (sjf_processes s))"
    by (intro Max_ge) auto
  with late have "sjf_time s < Max (arrival ` set (sjf_processes s))" by linarith
  then have "sjf_wait (sjf_body s) < sjf_wait s"
    by (simp add: sjf_wait_def sjf_body_idle[OF Nil])
  moreover have "sjf_left (sjf_body s) = sjf_left s"
    by (simp add: sjf_left_def sjf_body_idle[OF Nil])
  ultimately show ?thesis by simp
next
  case (Cons i rest)
  have "sjf_left (sjf_body s) < sjf_left s"
    using c by (simp add: sjf_left_def sjf_cond_def sjf_body_run[OF Cons] Let_def)
  then show ?thesis by simp
qed

text \<open>SJF non-preemptive on fresh objects (\<^verbatim>\<open>completion\<close> is \<^verbatim>\<open>None\<close>): the call returns,
  every process has the metrics of the specification, the durations of the segments add
  up to the burst times.\<close>

lemma sjf_non_preemptive_fresh_input:
  assumes v: "\<forall>p\<in>set procs. completion p = None"
  shows "\<exists>gantt ps. sjf_non_preemptive procs = Some (gantt, ps)
           \<and> map identity ps = map identity procs
           \<and> (\<forall>p\<in>set ps. metrics_ok p)
           \<and> sum_list (map duration gantt) = sum_list (map burst procs)"
proof -
  let ?s0 = "\<lparr>sjf_processes = procs, sjf_time = 0, sjf_completed = 0, sjf_gantt = []\<rparr>"
  have f0: "sjf_finished ?s0 = {}" using v by (auto simp: sjf_finished_def)
  have "sum_list (map sjf_pending procs) = sum_list (map burst procs)"
    using v by (intro arg_cong[where f = sum_list] map_cong) (simp_all add: sjf_pending_def)
  then have i0: "sjf_inv procs ?s0" unfolding sjf_inv_def f0 by simp
  have "\<exists>t. while_option sjf_cond sjf_body ?s0 = Some t"
  proof (rule wf_rel_while_option_Some[where P = "sjf_inv procs" and R = "measures [sjf_left, sjf_wait]"])
    show "wf (measures [sjf_left, sjf_wait])" by (rule wf_measures)
    show "\<And>s. sjf_inv procs s \<and> sjf_cond s \<Longrightarrow> (sjf_body s, s) \<in> measures [sjf_left, sjf_wait]"
      using sjf_body_decreases by blast
    show "\<And>s. sjf_inv procs s \<and> sjf_cond s \<Longrightarrow> sjf_inv procs (sjf_body s)"
      using sjf_body_inv by blast
    show "sjf_inv procs ?s0" by (rule i0)
  qed
  then obtain t where t: "while_option sjf_cond sjf_body ?s0 = Some t" by blast
  have inv: "sjf_inv procs t"
    by (rule while_option_rule[where P = "sjf_inv procs", OF _ t]) (simp_all add: sjf_body_inv i0)
  have stop: "\<not> sjf_cond t" by (rule while_option_stop[OF t])
  let ?n = "length (sjf_processes t)"
  from inv have cnt: "sjf_completed t = card (sjf_finished t)" unfolding sjf_inv_def by simp
  have sub: "sjf_finished t \<subseteq> {0..<?n}" by (auto simp: sjf_finished_def)
  from stop cnt have "card {0..<?n} \<le> card (sjf_finished t)" by (simp add: sjf_cond_def)
  with sub have all: "sjf_finished t = {0..<?n}"
    by (metis card_seteq finite_atLeastLessThan)
  have m: "\<forall>p\<in>set (sjf_processes t). metrics_ok p"
  proof
    fix p assume "p \<in> set (sjf_processes t)"
    then obtain i where "i < ?n" "p = sjf_processes t ! i" by (auto simp: in_set_conv_nth)
    with all inv show "metrics_ok p" unfolding sjf_inv_def by simp
  qed
  have "\<forall>p\<in>set (sjf_processes t). sjf_pending p = 0"
  proof
    fix p assume "p \<in> set (sjf_processes t)"
    then obtain i where "i < ?n" "p = sjf_processes t ! i" by (auto simp: in_set_conv_nth)
    with all have "i \<in> sjf_finished t" by simp
    then show "sjf_pending p = 0" using \<open>p = sjf_processes t ! i\<close>
      by (auto simp: sjf_finished_def sjf_pending_def)
  qed
  then have "sum_list (map sjf_pending (sjf_processes t)) = 0" by (rule sum_list_all_zero)
  with inv have w: "sum_list (map duration (sjf_gantt t)) = sum_list (map burst procs)"
    unfolding sjf_inv_def by simp
  from inv have idn: "map identity (sjf_processes t) = map identity procs"
    unfolding sjf_inv_def by simp
  from t have "sjf_non_preemptive procs = Some (sjf_gantt t, sjf_processes t)"
    by (simp add: sjf_non_preemptive_def)
  with idn m w show ?thesis by blast
qed

subsection \<open>SJF preemptive (\<^verbatim>\<open>sjf.py\<close>): termination and metrics\<close>

lemma srtf_finished_finite [simp]: "finite (srtf_finished s)"
  unfolding srtf_finished_def by simp

lemma srtf_body_idle:
  "srtf_ready_queue s = [] \<Longrightarrow> srtf_body s = s\<lparr>srtf_time := srtf_time s + 1\<rparr>"
  by (simp add: srtf_body_def)

lemma srtf_body_run:
  assumes "srtf_ready_queue s = i # rest"
  defines "shortest \<equiv> py_min_from (\<lambda>i. remaining (srtf_processes s ! i)) i rest"
  shows "srtf_time (srtf_body s) = srtf_time s + 1"
    and "srtf_processes (srtf_body s) =
           (srtf_processes s)[shortest :=
              (if remaining (srtf_processes s ! shortest) = 1
               then finish (srtf_time s + 1) ((srtf_processes s ! shortest)\<lparr>remaining := 0\<rparr>)
               else (srtf_processes s ! shortest)
                      \<lparr>remaining := remaining (srtf_processes s ! shortest) - 1\<rparr>)]"
    and "srtf_completed (srtf_body s) =
           (if remaining (srtf_processes s ! shortest) = 1
            then srtf_completed s + 1 else srtf_completed s)"
  using assms(1) unfolding shortest_def by (simp_all add: srtf_body_def Let_def)

lemma srtf_selected:
  assumes "srtf_ready_queue s = i # rest"
  defines "shortest \<equiv> py_min_from (\<lambda>i. remaining (srtf_processes s ! i)) i rest"
  shows "shortest < length (srtf_processes s)"
    and "arrival (srtf_processes s ! shortest) \<le> srtf_time s"
    and "0 < remaining (srtf_processes s ! shortest)"
proof -
  have "shortest \<in> set (srtf_ready_queue s)"
    unfolding assms(1) shortest_def by (rule py_min_from_mem)
  then show "shortest < length (srtf_processes s)"
    "arrival (srtf_processes s ! shortest) \<le> srtf_time s"
    "0 < remaining (srtf_processes s ! shortest)"
    by (simp_all add: srtf_ready_queue_def)
qed

lemma srtf_body_inv:
  assumes inv: "srtf_inv procs s"
  shows "srtf_inv procs (srtf_body s)"
proof -
  let ?n = "length (srtf_processes s)"
  let ?s' = "srtf_body s"
  from inv have cnt: "srtf_completed s = card (srtf_finished s)"
    and idn: "map identity (srtf_processes s) = map identity procs"
    and b: "\<And>i. i < ?n \<Longrightarrow> 0 < burst (srtf_processes s ! i)"
    and r: "\<And>i. i < ?n \<Longrightarrow> 0 \<le> remaining (srtf_processes s ! i)"
    and w: "\<And>i. i < ?n \<Longrightarrow> burst (srtf_processes s ! i) - remaining (srtf_processes s ! i)
                  \<le> max 0 (srtf_time s - arrival (srtf_processes s ! i))"
    and met: "\<And>i. i \<in> srtf_finished s \<Longrightarrow> metrics_ok (srtf_processes s ! i)"
    unfolding srtf_inv_def by auto
  show ?thesis
  proof (cases "srtf_ready_queue s")
    case Nil
    have f: "srtf_finished ?s' = srtf_finished s"
      by (simp add: srtf_body_idle[OF Nil] srtf_finished_def)
    have 1: "0 < burst (srtf_processes s ! i) \<and> 0 \<le> remaining (srtf_processes s ! i)
            \<and> burst (srtf_processes s ! i) - remaining (srtf_processes s ! i)
                  \<le> max 0 (srtf_time s + 1 - arrival (srtf_processes s ! i))"
      if i: "i < ?n" for i
      using b[OF i] r[OF i] w[OF i] by (auto simp: max_def split: if_splits)
    show ?thesis
      unfolding srtf_inv_def f using cnt idn 1 met by (simp add: srtf_body_idle[OF Nil])
  next
    case (Cons i0 rest)
    let ?c = "py_min_from (\<lambda>i. remaining (srtf_processes s ! i)) i0 rest"
    let ?p = "srtf_processes s ! ?c"
    note sel = srtf_selected[OF Cons]
    note bd = srtf_body_run[OF Cons]
    have n: "length (srtf_processes ?s') = ?n" by (simp add: bd(2))
    have fin: "srtf_finished ?s' =
        (if remaining ?p = 1 then insert ?c (srtf_finished s) else srtf_finished s)"
    proof (cases "remaining ?p = 1")
      case True
      then show ?thesis unfolding srtf_finished_def bd(2) using sel(1)
        by (auto simp: nth_list_update finish_def Let_def split: if_splits)
    next
      case False
      then show ?thesis unfolding srtf_finished_def bd(2) using sel(1,3)
        by (auto simp: nth_list_update split: if_splits)
    qed
    have notin: "?c \<notin> srtf_finished s" using sel(3) by (simp add: srtf_finished_def)
    have 1: "srtf_completed ?s' = card (srtf_finished ?s')"
      unfolding bd(3) fin using cnt notin by simp
    have 2: "map identity (srtf_processes ?s') = map identity procs"
      unfolding bd(2) idn[symmetric]
      by (rule map_update_same) (simp add: identity_def finish_def Let_def)
    have late: "burst ?p - remaining ?p \<le> srtf_time s - arrival ?p"
      using w[OF sel(1)] sel(2) by (simp add: max_def)
    have 3: "0 < burst (srtf_processes ?s' ! i) \<and> 0 \<le> remaining (srtf_processes ?s' ! i)
            \<and> burst (srtf_processes ?s' ! i) - remaining (srtf_processes ?s' ! i)
                  \<le> max 0 (srtf_time ?s' - arrival (srtf_processes ?s' ! i))"
      if i: "i < ?n" for i
    proof (cases "i = ?c")
      case True
      show ?thesis unfolding True bd(1,2)
        using b[OF sel(1)] sel late by (simp add: max_def finish_def Let_def)
    next
      case False
      then show ?thesis unfolding bd(1,2)
        using b[OF i] r[OF i] w[OF i] i by (auto simp: max_def split: if_splits)
    qed
    have 4: "metrics_ok (srtf_processes ?s' ! j)" if j: "j \<in> srtf_finished ?s'" for j
    proof (cases "j = ?c")
      case True
      with j fin notin have one: "remaining ?p = 1" by (auto split: if_splits)
      show ?thesis unfolding True bd(2) using sel(1) one late
        by (simp add: metrics_ok_def finish_def Let_def)
    next
      case False
      with j fin have "j \<in> srtf_finished s" by (auto split: if_splits)
      with met False show ?thesis by (simp add: bd(2))
    qed
    show ?thesis unfolding srtf_inv_def n using 1 2 3 4 by blast
  qed
qed

lemma srtf_body_decreases:
  assumes inv: "srtf_inv procs s" and c: "srtf_cond s"
  shows "(srtf_body s, s) \<in> measures [srtf_work, srtf_wait]"
proof (cases "srtf_ready_queue s")
  case Nil
  let ?n = "length (srtf_processes s)"
  from inv have cnt: "srtf_completed s = card (srtf_finished s)"
    and r: "\<And>i. i < ?n \<Longrightarrow> 0 \<le> remaining (srtf_processes s ! i)"
    unfolding srtf_inv_def by auto
  have sub: "srtf_finished s \<subseteq> {0..<?n}" by (auto simp: srtf_finished_def)
  from c cnt have "card (srtf_finished s) < card {0..<?n}" by (simp add: srtf_cond_def)
  with sub have "srtf_finished s \<noteq> {0..<?n}" by auto
  with sub have "\<exists>i\<in>{0..<?n}. i \<notin> srtf_finished s" by blast
  then obtain i where i: "i < ?n" "remaining (srtf_processes s ! i) \<noteq> 0"
    by (auto simp: srtf_finished_def)
  with r[of i] have pos: "0 < remaining (srtf_processes s ! i)" by simp
  have late: "srtf_time s < arrival (srtf_processes s ! i)"
  proof (rule ccontr)
    assume "\<not> srtf_time s < arrival (srtf_processes s ! i)"
    with i pos have "i \<in> set (srtf_ready_queue s)" by (simp add: srtf_ready_queue_def)
    with Nil show False by simp
  qed
  from i have "arrival (srtf_processes s ! i) \<le> Max (arrival ` set (srtf_processes s))"
    by (intro Max_ge) auto
  with late have "srtf_time s < Max (arrival ` set (srtf_processes s))" by linarith
  then have "srtf_wait (srtf_body s) < srtf_wait s"
    by (simp add: srtf_wait_def srtf_body_idle[OF Nil])
  moreover have "srtf_work (srtf_body s) = srtf_work s"
    by (simp add: srtf_work_def srtf_body_idle[OF Nil])
  ultimately show ?thesis by simp
next
  case (Cons i0 rest)
  note sel = srtf_selected[OF Cons]
  have "srtf_work (srtf_body s) < srtf_work s"
    unfolding srtf_work_def srtf_body_run(2)[OF Cons] using sel
    by (intro sum_list_update_less) (simp_all add: finish_def Let_def)
  then show ?thesis by simp
qed

text \<open>SJF preemptive on valid input (positive burst times, fresh objects): the call
  returns, every process has been served in full and has the metrics of the
  specification.\<close>

lemma sjf_preemptive_valid_input:
  assumes v: "\<forall>p\<in>set procs. 0 < burst p \<and> remaining p = burst p"
  shows "\<exists>gantt ps. sjf_preemptive procs = Some (gantt, ps)
           \<and> map identity ps = map identity procs
           \<and> (\<forall>p\<in>set ps. remaining p = 0 \<and> metrics_ok p)"
proof -
  let ?s0 = "\<lparr>srtf_processes = procs, srtf_time = 0, srtf_completed = 0,
              srtf_gantt = [], srtf_current_process = None\<rparr>"
  have v': "0 < burst (procs ! i) \<and> remaining (procs ! i) = burst (procs ! i)"
    if "i < length procs" for i using v that nth_mem by blast
  have f0: "srtf_finished ?s0 = {}"
  proof -
    have "i \<notin> srtf_finished ?s0" for i
      using v'[of i] by (auto simp: srtf_finished_def)
    then show ?thesis by blast
  qed
  have i0: "srtf_inv procs ?s0" unfolding srtf_inv_def f0 using v' by (simp add: less_imp_le)
  have "\<exists>t. while_option srtf_cond srtf_body ?s0 = Some t"
  proof (rule wf_rel_while_option_Some[where P = "srtf_inv procs"
           and R = "measures [srtf_work, srtf_wait]"])
    show "wf (measures [srtf_work, srtf_wait])" by (rule wf_measures)
    show "\<And>s. srtf_inv procs s \<and> srtf_cond s \<Longrightarrow>
            (srtf_body s, s) \<in> measures [srtf_work, srtf_wait]"
      using srtf_body_decreases by blast
    show "\<And>s. srtf_inv procs s \<and> srtf_cond s \<Longrightarrow> srtf_inv procs (srtf_body s)"
      using srtf_body_inv by blast
    show "srtf_inv procs ?s0" by (rule i0)
  qed
  then obtain t where t: "while_option srtf_cond srtf_body ?s0 = Some t" by blast
  have inv: "srtf_inv procs t"
    by (rule while_option_rule[where P = "srtf_inv procs", OF _ t])
       (simp_all add: srtf_body_inv i0)
  have stop: "\<not> srtf_cond t" by (rule while_option_stop[OF t])
  let ?n = "length (srtf_processes t)"
  from inv have cnt: "srtf_completed t = card (srtf_finished t)" unfolding srtf_inv_def by simp
  have sub: "srtf_finished t \<subseteq> {0..<?n}" by (auto simp: srtf_finished_def)
  from stop cnt have "card {0..<?n} \<le> card (srtf_finished t)" by (simp add: srtf_cond_def)
  with sub have all: "srtf_finished t = {0..<?n}"
    by (metis card_seteq finite_atLeastLessThan)
  have m: "\<forall>p\<in>set (srtf_processes t). remaining p = 0 \<and> metrics_ok p"
  proof
    fix p assume "p \<in> set (srtf_processes t)"
    then obtain i where i: "i < ?n" "p = srtf_processes t ! i" by (auto simp: in_set_conv_nth)
    with all have "i \<in> srtf_finished t" by simp
    with inv i show "remaining p = 0 \<and> metrics_ok p"
      unfolding srtf_inv_def by (simp add: srtf_finished_def)
  qed
  from inv have idn: "map identity (srtf_processes t) = map identity procs"
    unfolding srtf_inv_def by simp
  from t have "sjf_preemptive procs = Some (srtf_gantt t, srtf_processes t)"
    by (simp add: sjf_preemptive_def)
  with idn m show ?thesis by blast
qed

subsection \<open>FCFS: metrics and no work lost\<close>

lemma fcfs_body_metrics: "fcfs_metrics_ok (fst (fcfs_body t p))"
  by (simp add: fcfs_body_def Let_def fcfs_metrics_ok_def)

lemma fcfs_loop_metrics: "\<forall>p\<in>set (fst (fcfs_loop t ps)). fcfs_metrics_ok p"
proof (induction ps arbitrary: t)
  case Nil
  show ?case by simp
next
  case (Cons p ps)
  show ?case unfolding fcfs_loop_Cons using Cons.IH fcfs_body_metrics by simp
qed

text \<open>\<^verbatim>\<open>fcfs_scheduling\<close>, for every input: each process has the metrics of the
  specification and the durations of the segments add up to the burst times.\<close>

lemma fcfs_scheduling_metrics:
  "(\<forall>p\<in>set (fcfs_results.processes (fcfs_scheduling procs)). fcfs_metrics_ok p)
   \<and> sum_list (map duration (fcfs_results.gantt_chart (fcfs_scheduling procs)))
       = sum_list (map fcfs_process.burst_time procs)"
proof -
  let ?sorted = "sort_key fcfs_process.arrival_time procs"
  have "fcfs_results.processes (fcfs_scheduling procs) = fst (fcfs_loop 0 ?sorted)"
    by (simp add: fcfs_scheduling_def Let_def case_prod_beta)
  then have 1: "\<forall>p\<in>set (fcfs_results.processes (fcfs_scheduling procs)). fcfs_metrics_ok p"
    using fcfs_loop_metrics by simp
  have g: "fcfs_results.gantt_chart (fcfs_scheduling procs) = fst (snd (fcfs_loop 0 ?sorted))"
    by (simp add: fcfs_scheduling_def Let_def case_prod_beta)
  have "map duration (fst (snd (fcfs_loop 0 ?sorted))) = map fcfs_process.burst_time ?sorted"
    using fcfs_loop_gantt[of 0 ?sorted]
    by (metis (no_types, lifting) list.map_comp map_eq_conv o_apply snd_conv)
  then have 2: "sum_list (map duration (fcfs_results.gantt_chart (fcfs_scheduling procs)))
       = sum_list (map fcfs_process.burst_time procs)"
    unfolding g by (simp add: sum_list_sort_key)
  from 1 2 show ?thesis by blast
qed

lemma run_to_completion_fields:
  "Process.start_time (run_to_completion t p) = t"
  "Process.completion_time (run_to_completion t p) = t + Process.burst_time p"
  "Process.turnaround_time (run_to_completion t p) = t + Process.burst_time p - Process.arrival_time p"
  "Process.waiting_time (run_to_completion t p) = t - Process.arrival_time p"
  "Process.burst_time (run_to_completion t p) = Process.burst_time p"
  "Process.arrival_time (run_to_completion t p) = Process.arrival_time p"
  "Process.pid (run_to_completion t p) = Process.pid p"
  by (simp_all add: run_to_completion_def Let_def)

lemma run_to_completion_metrics:
  "Process.arrival_time p \<le> t \<Longrightarrow> Process_metrics_ok (run_to_completion t p)"
  by (simp add: Process_metrics_ok_def run_to_completion_fields)

lemma logic_fcfs_loop_metrics:
  "(\<forall>p\<in>set (logic_fcfs_loop t ps). Process_metrics_ok p)
   \<and> map (\<lambda>p. Process.completion_time p - Process.start_time p) (logic_fcfs_loop t ps)
       = map Process.burst_time ps"
proof (induction ps arbitrary: t)
  case Nil
  show ?case by simp
next
  case (Cons p ps)
  have "Process_metrics_ok
          (run_to_completion (if t < Process.arrival_time p then Process.arrival_time p else t) p)"
    by (rule run_to_completion_metrics) simp
  with Cons.IH show ?case by (simp add: Let_def run_to_completion_fields)
qed

lemma sum_list_draw_data:
  "sum_list (map duration (draw_data res))
     = sum_list (map (\<lambda>p. Process.completion_time p - Process.start_time p) res)"
proof -
  have "map duration (draw_data res)
          = map (\<lambda>p. Process.completion_time p - Process.start_time p)
              (sort_key Process.start_time res)"
    by (simp add: draw_data_def duration_def)
  then show ?thesis by (simp add: sum_list_sort_key)
qed

text \<open>\<^verbatim>\<open>logic_fcfs\<close>, for every input: the same two properties, the chart being the one
  \<^verbatim>\<open>draw_gantt\<close> derives.\<close>

lemma logic_fcfs_metrics:
  "(\<forall>p\<in>set (logic_fcfs procs). Process_metrics_ok p)
   \<and> sum_list (map duration (draw_data (logic_fcfs procs)))
       = sum_list (map Process.burst_time procs)"
  using logic_fcfs_loop_metrics[of 0 "sort_key Process.arrival_time procs"]
  by (simp add: logic_fcfs_def sum_list_draw_data sum_list_sort_key)

end
